theory Spec2Isabelle
  imports Main "HOL-Library.Word"
begin

unbundle bit_operations_syntax

section \<open>Data model of imt.c\<close>

type_synonym u8 = "8 word"
type_synonym u32 = "32 word"
text \<open>An \<open>int32_t\<close> is kept as its 32-bit pattern and read with \<open>sint\<close>.\<close>
type_synonym s32 = "32 word"

text \<open>
  \<open>struct hid_location\<close>, \<open>enum hid_kind\<close> and \<open>struct hid_item\<close> are declared in
  the kernel's usbhid.h, which is not part of the repository: the records below hold the
  members imt.c reads (\<open>loc.size\<close>, \<open>loc.count\<close>, \<open>loc.pos\<close> are \<open>uint32_t\<close>;
  \<open>usage\<close>, \<open>report_ID\<close> and the logical and physical bounds are \<open>int32_t\<close>;
  \<open>collevel\<close> is an \<open>int\<close>; \<open>flags\<close> is a \<open>uint32_t\<close>).
\<close>

record hid_location =
  loc_size :: u32
  loc_count :: u32
  loc_pos :: u32

datatype hid_kind = hid_input | hid_output | hid_feature | hid_collection | hid_endcollection

record hid_item =
  usage :: s32
  collevel :: int
  kind :: hid_kind
  flags :: u32
  report_ID :: s32
  logical_minimum :: s32
  logical_maximum :: s32
  physical_minimum :: s32
  physical_maximum :: s32
  unit_exponent :: s32
  unit :: s32
  loc :: hid_location

text \<open>
  The descriptor bytes are tokenised by the kernel's \<open>hid_start_parse\<close> and
  \<open>hid_get_item\<close>. A descriptor is modelled by what that parser yields: for each kind
  \<open>k\<close>, the sequence of items \<open>hid_get_item\<close> returns after
  \<open>hid_start_parse(buf, len, 1 << k)\<close>.
\<close>

type_synonym hid_data = "hid_kind \<Rightarrow> hid_item list"

section \<open>Constants and functions of the kernel headers\<close>

text \<open>
  imt.c takes the HID usage pages and usages, the item flags and \<open>HID_USAGE2\<close> from
  usbhid.h, the event codes, \<open>ABS_MAX\<close> and \<open>MAX_MT_SLOTS\<close> from evdev's input.h and
  \<open>EINVAL\<close> from errno.h. None of these headers is part of the repository, so their
  values are parameters of the model: every definition below that uses one takes the
  record \<open>K\<close> of them. \<open>MAX_MT_SLOTS\<close> is a positive \<open>int\<close> constant; it is kept
  as a natural number.
\<close>

record hid_consts =
  HID_USAGE2 :: "int \<Rightarrow> int \<Rightarrow> int"
  HUP_GENERIC_DESKTOP :: int
  HUP_DIGITIZERS :: int
  HUP_MICROSOFT :: int
  HUG_X :: int
  HUG_Y :: int
  HUD_TOUCHSCREEN :: int
  HUD_TOUCHPAD :: int
  HUD_CONFIG :: int
  HUD_FINGER :: int
  HUD_TIP_PRESSURE :: int
  HUD_IN_RANGE :: int
  HUD_TIP_SWITCH :: int
  HUD_CONFIDENCE :: int
  HUD_WIDTH :: int
  HUD_HEIGHT :: int
  HUD_CONTACTID :: int
  HUD_INPUT_MODE :: int
  HUD_CONTACTCOUNT :: int
  HUD_CONTACT_MAX :: int
  HUD_SCAN_TIME :: int
  HIO_CONST :: u32
  HIO_VARIABLE :: u32
  HIO_RELATIVE :: u32
  ABS_MT_SLOT :: int
  ABS_MT_TOUCH_MAJOR :: int
  ABS_MT_TOUCH_MINOR :: int
  ABS_MT_ORIENTATION :: int
  ABS_MT_POSITION_X :: int
  ABS_MT_POSITION_Y :: int
  ABS_MT_TRACKING_ID :: int
  ABS_MT_PRESSURE :: int
  ABS_MT_DISTANCE :: int
  ABS_MT_TOOL_X :: int
  ABS_MT_TOOL_Y :: int
  ABS_MAX :: int
  MAX_MT_SLOTS :: nat
  EINVAL :: int

text \<open>
  A report buffer is the memory at the pointer the function receives: a byte for every
  offset from it.
\<close>

type_synonym buffer = "int \<Rightarrow> u8"

text \<open>What \<open>evdev_push_abs\<close> and \<open>evdev_sync\<close> send to the evdev device.\<close>

datatype evdev_event = Push_abs u32 s32 | Sync

text \<open>
  The functions imt.c calls in the kernel and in the parent driver are parameters too:
  \<^item> \<open>hid_get_data_unsigned(buf, len, loc)\<close> and \<open>hid_put_data_unsigned(buf, len, loc, value)\<close>;
  \<^item> \<open>hid_item_resolution(hi)\<close>;
  \<^item> \<open>evdev_get_mt_slot_by_tracking_id(evdev, id)\<close>, which reads the state of the evdev
    device: the model gives it the events the device has received so far;
  \<^item> \<open>iichid_get_report\<close> and \<open>iichid_set_report\<close> for the feature report of an id,
    which return an error number (the first also the buffer it filled).
\<close>

record kernel_ops =
  hid_get_data_unsigned :: "buffer \<Rightarrow> u32 \<Rightarrow> hid_location \<Rightarrow> u32"
  hid_put_data_unsigned :: "buffer \<Rightarrow> u32 \<Rightarrow> hid_location \<Rightarrow> u32 \<Rightarrow> buffer"
  hid_item_resolution :: "hid_item \<Rightarrow> s32"
  evdev_get_mt_slot_by_tracking_id :: "evdev_event list \<Rightarrow> s32 \<Rightarrow> s32"
  iichid_get_report :: "buffer \<Rightarrow> u32 \<Rightarrow> u8 \<Rightarrow> int \<times> buffer"
  iichid_set_report :: "buffer \<Rightarrow> u32 \<Rightarrow> u8 \<Rightarrow> int"

section \<open>The usage table\<close>

abbreviation WMT_BSIZE :: u32 where "WMT_BSIZE \<equiv> 1024"

abbreviation WMT_TIP_SWITCH :: nat where "WMT_TIP_SWITCH \<equiv> 0"
abbreviation WMT_SLOT :: nat where "WMT_SLOT \<equiv> WMT_TIP_SWITCH"
abbreviation WMT_WIDTH :: nat where "WMT_WIDTH \<equiv> 1"
abbreviation WMT_MAJOR :: nat where "WMT_MAJOR \<equiv> WMT_WIDTH"
abbreviation WMT_HEIGHT :: nat where "WMT_HEIGHT \<equiv> 2"
abbreviation WMT_MINOR :: nat where "WMT_MINOR \<equiv> WMT_HEIGHT"
abbreviation WMT_ORIENTATION :: nat where "WMT_ORIENTATION \<equiv> 3"
abbreviation WMT_X :: nat where "WMT_X \<equiv> 4"
abbreviation WMT_Y :: nat where "WMT_Y \<equiv> 5"
abbreviation WMT_CONTACTID :: nat where "WMT_CONTACTID \<equiv> 6"
abbreviation WMT_PRESSURE :: nat where "WMT_PRESSURE \<equiv> 7"
abbreviation WMT_IN_RANGE :: nat where "WMT_IN_RANGE \<equiv> 8"
abbreviation WMT_CONFIDENCE :: nat where "WMT_CONFIDENCE \<equiv> 9"
abbreviation WMT_TOOL_X :: nat where "WMT_TOOL_X \<equiv> 10"
abbreviation WMT_TOOL_Y :: nat where "WMT_TOOL_Y \<equiv> 11"
abbreviation WMT_N_USAGES :: nat where "WMT_N_USAGES \<equiv> 12"

definition WMT_NO_CODE :: "hid_consts \<Rightarrow> int" where
  "WMT_NO_CODE K = ABS_MAX K + 10"

abbreviation WMT_NO_USAGE :: int where "WMT_NO_USAGE \<equiv> - 1"

abbreviation HUMS_THQA_CERT :: int where "HUMS_THQA_CERT \<equiv> 0xC5"

text \<open>
  \<open>struct wmt_hid_map_item\<close>: the usage is an \<open>int32_t\<close>, the code a \<open>uint32_t\<close>.
\<close>

record wmt_hid_map_item =
  mi_name :: string
  mi_usage :: s32
  mi_code :: u32
  mi_required :: bool

definition wmt_hid_map :: "hid_consts \<Rightarrow> wmt_hid_map_item list" where
  "wmt_hid_map K =
    [\<lparr>mi_name = ''TIP'', mi_usage = word_of_int (HID_USAGE2 K (HUP_DIGITIZERS K) (HUD_TIP_SWITCH K)),
      mi_code = word_of_int (ABS_MT_SLOT K), mi_required = True\<rparr>,
     \<lparr>mi_name = ''WDTH'', mi_usage = word_of_int (HID_USAGE2 K (HUP_DIGITIZERS K) (HUD_WIDTH K)),
      mi_code = word_of_int (ABS_MT_TOUCH_MAJOR K), mi_required = False\<rparr>,
     \<lparr>mi_name = ''HGHT'', mi_usage = word_of_int (HID_USAGE2 K (HUP_DIGITIZERS K) (HUD_HEIGHT K)),
      mi_code = word_of_int (ABS_MT_TOUCH_MINOR K), mi_required = False\<rparr>,
     \<lparr>mi_name = ''ORIE'', mi_usage = word_of_int WMT_NO_USAGE,
      mi_code = word_of_int (ABS_MT_ORIENTATION K), mi_required = False\<rparr>,
     \<lparr>mi_name = ''X'', mi_usage = word_of_int (HID_USAGE2 K (HUP_GENERIC_DESKTOP K) (HUG_X K)),
      mi_code = word_of_int (ABS_MT_POSITION_X K), mi_required = True\<rparr>,
     \<lparr>mi_name = ''Y'', mi_usage = word_of_int (HID_USAGE2 K (HUP_GENERIC_DESKTOP K) (HUG_Y K)),
      mi_code = word_of_int (ABS_MT_POSITION_Y K), mi_required = True\<rparr>,
     \<lparr>mi_name = ''C_ID'', mi_usage = word_of_int (HID_USAGE2 K (HUP_DIGITIZERS K) (HUD_CONTACTID K)),
      mi_code = word_of_int (ABS_MT_TRACKING_ID K), mi_required = True\<rparr>,
     \<lparr>mi_name = ''PRES'', mi_usage = word_of_int (HID_USAGE2 K (HUP_DIGITIZERS K) (HUD_TIP_PRESSURE K)),
      mi_code = word_of_int (ABS_MT_PRESSURE K), mi_required = False\<rparr>,
     \<lparr>mi_name = ''RANG'', mi_usage = word_of_int (HID_USAGE2 K (HUP_DIGITIZERS K) (HUD_IN_RANGE K)),
      mi_code = word_of_int (ABS_MT_DISTANCE K), mi_required = False\<rparr>,
     \<lparr>mi_name = ''CONF'', mi_usage = word_of_int (HID_USAGE2 K (HUP_DIGITIZERS K) (HUD_CONFIDENCE K)),
      mi_code = word_of_int (WMT_NO_CODE K), mi_required = False\<rparr>,
     \<lparr>mi_name = ''TL_X'', mi_usage = word_of_int (HID_USAGE2 K (HUP_GENERIC_DESKTOP K) (HUG_X K)),
      mi_code = word_of_int (ABS_MT_TOOL_X K), mi_required = False\<rparr>,
     \<lparr>mi_name = ''TL_Y'', mi_usage = word_of_int (HID_USAGE2 K (HUP_GENERIC_DESKTOP K) (HUG_Y K)),
      mi_code = word_of_int (ABS_MT_TOOL_Y K), mi_required = False\<rparr>]"

text \<open>\<open>struct wmt_absinfo\<close>: the members \<open>min\<close>, \<open>max\<close> and \<open>res\<close>.\<close>

record wmt_absinfo =
  ai_min :: s32
  ai_max :: s32
  ai_res :: s32

text \<open>\<open>USAGE_SUPPORTED(caps, usage)\<close> is \<open>(caps) & (1 << (usage))\<close>, read as a truth value.\<close>

definition USAGE_SUPPORTED :: "u32 \<Rightarrow> nat \<Rightarrow> bool" where
  "USAGE_SUPPORTED caps u \<longleftrightarrow> caps AND push_bit u 1 \<noteq> 0"

text \<open>
  \<open>struct imt_softc\<close>, without the device, the lock and the evdev handle. A member
  \<open>m\<close> is the field \<open>sc_m\<close>; the arrays are functions of their indices.
\<close>

record imt_softc =
  sc_ai :: "nat \<Rightarrow> wmt_absinfo"
  sc_locs :: "nat \<Rightarrow> nat \<Rightarrow> hid_location"
  sc_cont_count_loc :: hid_location
  sc_slot_data :: "nat \<Rightarrow> u32"
  sc_caps :: u32
  sc_isize :: u32
  sc_nconts_per_report :: u32
  sc_nconts_todo :: u32
  sc_report_id :: u8
  sc_cont_max_loc :: hid_location
  sc_cont_max_rlen :: u32
  sc_cont_max_rid :: u8
  sc_thqa_cert_rlen :: u32
  sc_thqa_cert_rid :: u8
  sc_input_mode_loc :: hid_location
  sc_input_mode_rlen :: u32
  sc_input_mode_rid :: u8
  sc_buf :: buffer

section \<open>wmt_hid_report_size\<close>

text \<open>
  One iteration of the loop of \<open>wmt_hid_report_size\<close> on the pair \<open>(hpos, lpos)\<close>.
  \<open>h.report_ID == id\<close> compares an \<open>int32_t\<close> with a \<open>uint8_t\<close> promoted to
  \<open>int\<close>; the additions and the product are \<open>uint32_t\<close> and wrap.
\<close>

definition report_size_step :: "hid_kind \<Rightarrow> u8 \<Rightarrow> hid_item \<Rightarrow> u32 \<times> u32 \<Rightarrow> u32 \<times> u32" where
  "report_size_step k rid h hl =
     (case hl of (hpos, lpos) \<Rightarrow>
        if kind h = k \<and> sint (report_ID h) = uint rid then
          let lpos' = (if lpos > loc_pos (loc h) then loc_pos (loc h) else lpos);
              temp = loc_pos (loc h) + (loc_size (loc h) * loc_count (loc h));
              hpos' = (if hpos < temp then temp else hpos)
          in (hpos', lpos')
        else (hpos, lpos))"

fun report_size_loop :: "hid_kind \<Rightarrow> u8 \<Rightarrow> hid_item list \<Rightarrow> u32 \<times> u32 \<Rightarrow> u32 \<times> u32" where
  "report_size_loop k rid [] hl = hl"
| "report_size_loop k rid (h # hs) hl = report_size_loop k rid hs (report_size_step k rid h hl)"

text \<open>
  The function returns \<open>(temp + 7) / 8\<close>, a \<open>uint32_t\<close>, as an \<open>int\<close>.
\<close>

definition wmt_hid_report_size :: "hid_data \<Rightarrow> hid_kind \<Rightarrow> u8 \<Rightarrow> int" where
  "wmt_hid_report_size d k rid =
     (case report_size_loop k rid (d k) (0, 0xFFFFFFFF) of (hpos, lpos) \<Rightarrow>
        let temp = (if lpos > hpos then 0 else hpos - lpos)
        in sint ((temp + 7) div 8))"

text \<open>
  The Report Size Calculator in the words of the specification, over unbounded naturals:
  the items of the kind with a matching report id, the minimum starting bit position,
  the maximum of offset + width * count, and the span between them in bytes, rounded up.
\<close>

definition matching_items :: "hid_kind \<Rightarrow> u8 \<Rightarrow> hid_item list \<Rightarrow> hid_item list" where
  "matching_items k rid hs = filter (\<lambda>h. kind h = k \<and> sint (report_ID h) = uint rid) hs"

definition item_start :: "hid_item \<Rightarrow> nat" where
  "item_start h = unat (loc_pos (loc h))"

definition item_end :: "hid_item \<Rightarrow> nat" where
  "item_end h = unat (loc_pos (loc h)) + unat (loc_size (loc h)) * unat (loc_count (loc h))"

definition min_start :: "hid_item list \<Rightarrow> nat" where
  "min_start ms = Min (set (map item_start ms))"

definition max_end :: "hid_item list \<Rightarrow> nat" where
  "max_end ms = Max (set (map item_end ms))"

text \<open>
  The end position as line 570 computes it, \<open>h.loc.pos + (h.loc.size * h.loc.count)\<close>
  in \<open>uint32_t\<close>, read as a number, and the maximum of these computed ends.
\<close>

definition item_end32 :: "hid_item \<Rightarrow> nat" where
  "item_end32 h = unat (loc_pos (loc h) + (loc_size (loc h) * loc_count (loc h)))"

definition max_end32 :: "hid_item list \<Rightarrow> nat" where
  "max_end32 ms = Max (set (map item_end32 ms))"

definition report_size_spec :: "hid_item list \<Rightarrow> hid_kind \<Rightarrow> u8 \<Rightarrow> int" where
  "report_size_spec hs k rid =
     (let ms = matching_items k rid hs in
      if ms = [] \<or> max_end ms < min_start ms then 0
      else int ((max_end ms - min_start ms + 7) div 8))"

section \<open>wmt_hid_parse\<close>

text \<open>
  The local variables of \<open>wmt_hid_parse\<close>, with its argument \<open>sc\<close>: \<open>None\<close> is the
  \<open>NULL\<close> of \<open>imt_probe\<close>. \<open>cont\<close> is a \<open>size_t\<close> that counts items of the
  descriptor, whose length is a \<open>uint16_t\<close>: it is kept as a natural number.
\<close>

record wmt_locals =
  sc :: "imt_softc option"
  cont :: nat
  type :: int
  caps :: u32
  cont_count_max :: s32
  report_id :: u8
  cont_max_rid :: u8
  thqa_cert_rid :: u8
  input_mode_rid :: u8
  touch_coll :: bool
  finger_coll :: bool
  conf_coll :: bool
  cont_count_found :: bool
  scan_time_found :: bool

definition wmt_locals_init :: "imt_softc option \<Rightarrow> wmt_locals" where
  "wmt_locals_init s =
     \<lparr>sc = s, cont = 0, type = 0, caps = 0, cont_count_max = 0, report_id = 0,
      cont_max_rid = 0, thqa_cert_rid = 0, input_mode_rid = 0, touch_coll = False,
      finger_coll = False, conf_coll = False, cont_count_found = False,
      scan_time_found = False\<rparr>"

definition WMT_HI_ABSOLUTE :: "hid_consts \<Rightarrow> hid_item \<Rightarrow> bool" where
  "WMT_HI_ABSOLUTE K hi \<longleftrightarrow>
     flags hi AND (HIO_CONST K OR HIO_VARIABLE K OR HIO_RELATIVE K) = HIO_VARIABLE K"

text \<open>\<open>hi.usage == HID_USAGE2(page, u)\<close>: an \<open>int32_t\<close> compared with an \<open>int\<close>.\<close>

definition usage_is :: "hid_consts \<Rightarrow> hid_item \<Rightarrow> int \<Rightarrow> int \<Rightarrow> bool" where
  "usage_is K hi page u \<longleftrightarrow> sint (usage hi) = HID_USAGE2 K page u"

text \<open>
  The body of the first loop (lines 615-657), on one feature-kind item. In the
  \<open>hid_endcollection\<close> case the \<open>break\<close> of line 630 ends the case: the test of
  \<open>conf_coll\<close> on lines 631-632 is never reached.
\<close>

definition feature_item :: "hid_consts \<Rightarrow> hid_item \<Rightarrow> wmt_locals \<Rightarrow> wmt_locals" where
  "feature_item K hi st =
     (case kind hi of
        hid_collection \<Rightarrow>
          let st1 = (if collevel hi = 1 \<and> usage_is K hi (HUP_DIGITIZERS K) (HUD_TOUCHSCREEN K)
                     then st\<lparr>touch_coll := True\<rparr> else st);
              st2 = (if collevel hi = 1 \<and> usage_is K hi (HUP_DIGITIZERS K) (HUD_TOUCHPAD K)
                     then st1\<lparr>touch_coll := True\<rparr> else st1)
          in (if collevel hi = 1 \<and> usage_is K hi (HUP_DIGITIZERS K) (HUD_CONFIG K)
              then st2\<lparr>conf_coll := True\<rparr> else st2)
      | hid_endcollection \<Rightarrow>
          (if collevel hi = 0 \<and> touch_coll st then st\<lparr>touch_coll := False\<rparr> else st)
      | hid_feature \<Rightarrow>
          if collevel hi = 1 \<and> touch_coll st \<and> usage_is K hi (HUP_MICROSOFT K) HUMS_THQA_CERT
          then st\<lparr>thqa_cert_rid := ucast (report_ID hi)\<rparr>
          else
            let st1 = (if collevel hi = 1 \<and> touch_coll st \<and> WMT_HI_ABSOLUTE K hi \<and>
                          usage_is K hi (HUP_DIGITIZERS K) (HUD_CONTACT_MAX K)
                       then st\<lparr>cont_count_max := logical_maximum hi,
                               cont_max_rid := ucast (report_ID hi),
                               sc := map_option (\<lambda>s. s\<lparr>sc_cont_max_loc := loc hi\<rparr>) (sc st)\<rparr>
                       else st)
            in (if conf_coll st1 \<and> WMT_HI_ABSOLUTE K hi \<and>
                   usage_is K hi (HUP_DIGITIZERS K) (HUD_INPUT_MODE K)
                then st1\<lparr>input_mode_rid := ucast (report_ID hi),
                         sc := map_option (\<lambda>s. s\<lparr>sc_input_mode_loc := loc hi\<rparr>) (sc st1)\<rparr>
                else st1)
      | _ \<Rightarrow> st)"

text \<open>
  The loop over the usage table (lines 728-760), on the indices still to visit:
  \<open>continue\<close> goes on with the rest, \<open>break\<close> returns.
\<close>

fun map_usages :: "hid_consts \<Rightarrow> kernel_ops \<Rightarrow> hid_item \<Rightarrow> nat list \<Rightarrow> wmt_locals \<Rightarrow> wmt_locals" where
  "map_usages K ops hi [] st = st"
| "map_usages K ops hi (i # is) st =
     (if usage hi = mi_usage (wmt_hid_map K ! i) then
        (case sc st of
           None \<Rightarrow>
             if USAGE_SUPPORTED (caps st) i then map_usages K ops hi is st
             else st\<lparr>caps := caps st OR push_bit i 1\<rparr>
         | Some s \<Rightarrow>
             if loc_size (sc_locs s (cont st) i) \<noteq> 0 then map_usages K ops hi is st
             else
               let s1 = s\<lparr>sc_locs := (sc_locs s)(cont st := (sc_locs s (cont st))(i := loc hi))\<rparr>
               in if cont st > 0 then st\<lparr>sc := Some s1\<rparr>
                  else st\<lparr>caps := caps st OR push_bit i 1,
                          sc := Some (s1\<lparr>sc_ai := (sc_ai s1)(i :=
                            \<lparr>ai_min = logical_minimum hi, ai_max = logical_maximum hi,
                             ai_res = hid_item_resolution ops hi\<rparr>)\<rparr>)\<rparr>)
      else map_usages K ops hi is st)"

text \<open>
  \<open>(report_id == 0 || report_id == hi.report_ID)\<close>: the second test compares a
  \<open>uint8_t\<close> with an \<open>int32_t\<close>, as \<open>int\<close>s.
\<close>

definition same_report :: "u8 \<Rightarrow> hid_item \<Rightarrow> bool" where
  "same_report rid hi \<longleftrightarrow> rid = 0 \<or> uint rid = sint (report_ID hi)"

text \<open>
  The body of the second loop (lines 670-764), on one input-kind item.
  \<open>report_id = hi.report_ID\<close> keeps the low 8 bits.
\<close>

definition input_item :: "hid_consts \<Rightarrow> kernel_ops \<Rightarrow> hid_item \<Rightarrow> wmt_locals \<Rightarrow> wmt_locals" where
  "input_item K ops hi st =
     (case kind hi of
        hid_collection \<Rightarrow>
          let st1 = (if collevel hi = 1 \<and> usage_is K hi (HUP_DIGITIZERS K) (HUD_TOUCHSCREEN K)
                     then st\<lparr>touch_coll := True, type := HUD_TOUCHSCREEN K\<rparr> else st)
          in if collevel hi = 1 \<and> usage_is K hi (HUP_DIGITIZERS K) (HUD_TOUCHPAD K)
             then st1\<lparr>touch_coll := True, type := HUD_TOUCHPAD K\<rparr>
             else if touch_coll st1 \<and> collevel hi = 2 \<and>
                     same_report (report_id st1) hi \<and>
                     usage_is K hi (HUP_DIGITIZERS K) (HUD_FINGER K)
             then st1\<lparr>finger_coll := True\<rparr>
             else st1
      | hid_endcollection \<Rightarrow>
          if collevel hi = 1 \<and> finger_coll st then st\<lparr>finger_coll := False, cont := cont st + 1\<rparr>
          else if collevel hi = 0 \<and> touch_coll st then st\<lparr>touch_coll := False\<rparr>
          else st
      | hid_input \<Rightarrow>
          if WMT_HI_ABSOLUTE K hi \<and> touch_coll st \<and>
             same_report (report_id st) hi
          then
            let st1 = st\<lparr>report_id := ucast (report_ID hi)\<rparr>
            in if collevel hi = 1 \<and> usage_is K hi (HUP_DIGITIZERS K) (HUD_CONTACTCOUNT K)
               then st1\<lparr>cont_count_found := True,
                        sc := map_option (\<lambda>s. s\<lparr>sc_cont_count_loc := loc hi\<rparr>) (sc st1)\<rparr>
               else if collevel hi = 1 \<and> usage_is K hi (HUP_DIGITIZERS K) (HUD_SCAN_TIME K)
               then st1\<lparr>scan_time_found := True\<rparr>
               else if \<not> finger_coll st1 \<or> collevel hi \<noteq> 2 then st1
               else if sc st1 = None \<and> cont st1 > 0 then st1
               else if cont st1 \<ge> MAX_MT_SLOTS K then st1
               else map_usages K ops hi [0 ..< WMT_N_USAGES] st1
          else st
      | _ \<Rightarrow> st)"

text \<open>The check for the required usages (lines 771-774).\<close>

definition required_missing :: "hid_consts \<Rightarrow> u32 \<Rightarrow> bool" where
  "required_missing K cps \<longleftrightarrow>
     list_ex (\<lambda>i. mi_required (wmt_hid_map K ! i) \<and> \<not> USAGE_SUPPORTED cps i) [0 ..< WMT_N_USAGES]"

text \<open>
  What follows the checks when \<open>sc\<close> is not \<open>NULL\<close> (lines 785-821). \<open>cont\<close> becomes an
  \<open>int32_t\<close> and a \<open>uint32_t\<close> by conversion; the sizes, which are \<open>int\<close>s, become
  \<open>uint32_t\<close>s.
\<close>

definition wmt_publish :: "hid_consts \<Rightarrow> hid_data \<Rightarrow> wmt_locals \<Rightarrow> imt_softc \<Rightarrow> imt_softc" where
  "wmt_publish K d st s =
     (let ccm1 = (if sint (cont_count_max st) < 1 then of_nat (cont st) else cont_count_max st);
          ccm2 = (if sint ccm1 > int (MAX_MT_SLOTS K) then of_nat (MAX_MT_SLOTS K) else ccm1);
          s1 = s\<lparr>sc_ai := (sc_ai s)(WMT_SLOT := \<lparr>ai_min = 0, ai_max = ccm2 - 1, ai_res = 0\<rparr>)\<rparr>;
          orient = (USAGE_SUPPORTED (caps st) WMT_WIDTH \<and> USAGE_SUPPORTED (caps st) WMT_HEIGHT);
          caps1 = (if orient then caps st OR push_bit WMT_ORIENTATION 1 else caps st);
          s2 = (if orient
                then s1\<lparr>sc_ai := (sc_ai s1)(WMT_ORIENTATION := (sc_ai s1 WMT_ORIENTATION)\<lparr>ai_max := 1\<rparr>)\<rparr>
                else s1);
          s3 = s2\<lparr>sc_isize := word_of_int (wmt_hid_report_size d hid_input (report_id st)),
                  sc_cont_max_rlen := word_of_int (wmt_hid_report_size d hid_feature (cont_max_rid st))\<rparr>;
          s4 = (if thqa_cert_rid st > 0
                then s3\<lparr>sc_thqa_cert_rlen :=
                           word_of_int (wmt_hid_report_size d hid_feature (thqa_cert_rid st))\<rparr>
                else s3);
          s5 = (if input_mode_rid st > 0
                then s4\<lparr>sc_input_mode_rlen :=
                           word_of_int (wmt_hid_report_size d hid_feature (input_mode_rid st))\<rparr>
                else s4)
      in s5\<lparr>sc_report_id := report_id st, sc_caps := caps1,
            sc_nconts_per_report := of_nat (cont st), sc_cont_max_rid := cont_max_rid st,
            sc_thqa_cert_rid := thqa_cert_rid st, sc_input_mode_rid := input_mode_rid st\<rparr>)"

text \<open>The state after the first loop and after the second.\<close>

definition parse_features :: "hid_consts \<Rightarrow> imt_softc option \<Rightarrow> hid_data \<Rightarrow> wmt_locals" where
  "parse_features K s d = fold (feature_item K) (d hid_feature) (wmt_locals_init s)"

definition parse_inputs :: "hid_consts \<Rightarrow> kernel_ops \<Rightarrow> imt_softc option \<Rightarrow> hid_data \<Rightarrow> wmt_locals" where
  "parse_inputs K ops s d =
     fold (input_item K ops) (d hid_input) ((parse_features K s d)\<lparr>touch_coll := False\<rparr>)"

text \<open>
  \<open>wmt_hid_parse\<close> returns the collection type, or 0, and leaves the softc as the
  second component shows.
\<close>

definition wmt_hid_parse :: "hid_consts \<Rightarrow> kernel_ops \<Rightarrow> imt_softc option \<Rightarrow> hid_data \<Rightarrow> int \<times> imt_softc option" where
  "wmt_hid_parse K ops s d =
     (let st1 = parse_features K s d in
      if cont_max_rid st1 = 0 then (0, sc st1)
      else
        let st2 = parse_inputs K ops s d in
        if \<not> cont_count_found st2 \<or> \<not> scan_time_found st2 \<or> cont st2 = 0 then (0, sc st2)
        else if required_missing K (caps st2) then (0, sc st2)
        else (case sc st2 of
                None \<Rightarrow> (type st2, None)
              | Some s2 \<Rightarrow> (type st2, Some (wmt_publish K d st2 s2))))"

text \<open>
  The checks that make \<open>wmt_hid_parse\<close> return 0 (lines 662 and 769-774), as one
  condition on the descriptor.
\<close>

definition wmt_rejected :: "hid_consts \<Rightarrow> kernel_ops \<Rightarrow> imt_softc option \<Rightarrow> hid_data \<Rightarrow> bool" where
  "wmt_rejected K ops s d \<longleftrightarrow>
     cont_max_rid (parse_features K s d) = 0 \<or>
     \<not> cont_count_found (parse_inputs K ops s d) \<or>
     \<not> scan_time_found (parse_inputs K ops s d) \<or>
     cont (parse_inputs K ops s d) = 0 \<or>
     required_missing K (caps (parse_inputs K ops s d))"

text \<open>
  The members of the softc that \<open>wmt_hid_parse\<close> assigns only after the checks, and
  those it never assigns. The others (\<open>ai\<close>, \<open>locs\<close>, \<open>cont_count_loc\<close>,
  \<open>cont_max_loc\<close> and \<open>input_mode_loc\<close>) are written while the items are walked.
\<close>

definition wmt_published ::
  "imt_softc \<Rightarrow> (u32 \<times> u32 \<times> u32 \<times> u8) \<times> (u32 \<times> u8) \<times> (u32 \<times> u8) \<times> (u32 \<times> u8) \<times>
     (u32 \<times> (nat \<Rightarrow> u32) \<times> buffer)" where
  "wmt_published s =
     ((sc_caps s, sc_isize s, sc_nconts_per_report s, sc_report_id s),
      (sc_cont_max_rlen s, sc_cont_max_rid s),
      (sc_thqa_cert_rlen s, sc_thqa_cert_rid s),
      (sc_input_mode_rlen s, sc_input_mode_rid s),
      (sc_nconts_todo s, sc_slot_data s, sc_buf s))"

text \<open>
  The input fields inside a finger sub-collection, in the words of the specification:
  the input-kind items between a collection item of the finger usage at depth 2 and the
  next collection-close item at depth 1. The flag tells whether such a collection is
  open.
\<close>

fun finger_fields :: "hid_consts \<Rightarrow> bool \<Rightarrow> hid_item list \<Rightarrow> hid_item list" where
  "finger_fields K f [] = []"
| "finger_fields K f (h # hs) =
     (case kind h of
        hid_collection \<Rightarrow>
          finger_fields K (f \<or> (collevel h = 2 \<and> usage_is K h (HUP_DIGITIZERS K) (HUD_FINGER K))) hs
      | hid_endcollection \<Rightarrow> finger_fields K (f \<and> collevel h \<noteq> 1) hs
      | hid_input \<Rightarrow> (if f then h # finger_fields K f hs else finger_fields K f hs)
      | _ \<Rightarrow> finger_fields K f hs)"

text \<open>The same members of the softc behind the pointer \<open>sc\<close>, when it is not \<open>NULL\<close>.\<close>

definition published_opt ::
  "imt_softc option \<Rightarrow>
   ((u32 \<times> u32 \<times> u32 \<times> u8) \<times> (u32 \<times> u8) \<times> (u32 \<times> u8) \<times> (u32 \<times> u8) \<times>
     (u32 \<times> (nat \<Rightarrow> u32) \<times> buffer)) option" where
  "published_opt x = map_option wmt_published x"

text \<open>The flag of \<open>finger_fields\<close> after an item.\<close>

definition finger_flag :: "hid_consts \<Rightarrow> bool \<Rightarrow> hid_item \<Rightarrow> bool" where
  "finger_flag K f h =
     (case kind h of
        hid_collection \<Rightarrow> f \<or> (collevel h = 2 \<and> usage_is K h (HUP_DIGITIZERS K) (HUD_FINGER K))
      | hid_endcollection \<Rightarrow> f \<and> collevel h \<noteq> 1
      | _ \<Rightarrow> f)"

section \<open>Probe mode and attach mode\<close>

text \<open>No earlier entry of the usage table has the usage of entry \<open>i\<close>.\<close>

definition usage_first :: "hid_consts \<Rightarrow> nat \<Rightarrow> bool" where
  "usage_first K i \<longleftrightarrow> (\<forall>j < i. mi_usage (wmt_hid_map K ! j) \<noteq> mi_usage (wmt_hid_map K ! i))"

text \<open>
  The tests of an input item before the loop over the usage table, in its three parts:
  the item is absolute, inside the touch collection and of the pinned report; it is the
  contact count; it is the scan time.
\<close>

definition pinned :: "hid_consts \<Rightarrow> hid_item \<Rightarrow> wmt_locals \<Rightarrow> bool" where
  "pinned K hi st \<longleftrightarrow>
     WMT_HI_ABSOLUTE K hi \<and> touch_coll st \<and>
     same_report (report_id st) hi"

definition is_count :: "hid_consts \<Rightarrow> hid_item \<Rightarrow> bool" where
  "is_count K hi \<longleftrightarrow> collevel hi = 1 \<and> usage_is K hi (HUP_DIGITIZERS K) (HUD_CONTACTCOUNT K)"

definition is_scan :: "hid_consts \<Rightarrow> hid_item \<Rightarrow> bool" where
  "is_scan K hi \<longleftrightarrow> collevel hi = 1 \<and> usage_is K hi (HUP_DIGITIZERS K) (HUD_SCAN_TIME K)"

text \<open>
  The conditions under which an input item comes to the loop over the usage table,
  but for the test of \<open>sc == NULL && cont > 0\<close>.
\<close>

definition reaches_table :: "hid_consts \<Rightarrow> hid_item \<Rightarrow> wmt_locals \<Rightarrow> bool" where
  "reaches_table K hi st \<longleftrightarrow>
     kind hi = hid_input \<and> WMT_HI_ABSOLUTE K hi \<and> touch_coll st \<and>
     same_report (report_id st) hi \<and>
     \<not> (collevel hi = 1 \<and> usage_is K hi (HUP_DIGITIZERS K) (HUD_CONTACTCOUNT K)) \<and>
     \<not> (collevel hi = 1 \<and> usage_is K hi (HUP_DIGITIZERS K) (HUD_SCAN_TIME K)) \<and>
     finger_coll st \<and> collevel hi = 2 \<and> cont st < MAX_MT_SLOTS K"

text \<open>
  The local variables without the softc, and without the softc and the capabilities:
  what the two modes of \<open>wmt_hid_parse\<close> have in common.
\<close>

definition strip :: "wmt_locals \<Rightarrow> wmt_locals" where
  "strip st = st\<lparr>sc := None\<rparr>"

definition ctrl :: "wmt_locals \<Rightarrow> wmt_locals" where
  "ctrl st = st\<lparr>sc := None, caps := 0\<rparr>"

text \<open>
  With a softc, a location of non-zero size in row 0 of \<open>sc->locs\<close> belongs to a usage
  that is supported.
\<close>

definition row0_bound :: "wmt_locals \<Rightarrow> bool" where
  "row0_bound st \<longleftrightarrow>
     (\<exists>s. sc st = Some s \<and>
        (\<forall>i < WMT_N_USAGES. loc_size (sc_locs s 0 i) \<noteq> 0 \<longrightarrow> USAGE_SUPPORTED (caps st) i))"

text \<open>
  The relation between the local variables in probe mode, \<open>p\<close>, and in attach mode,
  \<open>a\<close>, after the same items: they agree on all but the softc and the capabilities,
  and on the capabilities whose usage is the first of its kind in the table.
\<close>

definition probe_sim :: "hid_consts \<Rightarrow> wmt_locals \<Rightarrow> wmt_locals \<Rightarrow> bool" where
  "probe_sim K p a \<longleftrightarrow>
     sc p = None \<and> ctrl p = ctrl a \<and> row0_bound a \<and>
     (\<forall>i < WMT_N_USAGES. usage_first K i \<longrightarrow>
        USAGE_SUPPORTED (caps p) i = USAGE_SUPPORTED (caps a) i)"

text \<open>
  The stronger relation that holds while every field that is bound has a non-zero size:
  the capabilities are the same, and in row 0 of \<open>sc->locs\<close> the locations of
  non-zero size are those of the supported usages, so that the test of line 742 and the
  test of line 731 agree.
\<close>

definition row0_exact :: "wmt_locals \<Rightarrow> bool" where
  "row0_exact st \<longleftrightarrow>
     (\<exists>s. sc st = Some s \<and>
        (\<forall>i < WMT_N_USAGES. (loc_size (sc_locs s 0 i) \<noteq> 0) = USAGE_SUPPORTED (caps st) i))"

definition probe_eq :: "wmt_locals \<Rightarrow> wmt_locals \<Rightarrow> bool" where
  "probe_eq p a \<longleftrightarrow> sc p = None \<and> ctrl p = ctrl a \<and> caps p = caps a \<and> row0_exact a"

section \<open>wmt_cont_max_parse\<close>

text \<open>
  \<open>cont_count_max\<close> is a \<open>uint32_t\<close>: it is compared with \<open>MAX_MT_SLOTS\<close> and with
  \<open>sc->ai[WMT_SLOT].max + 1\<close> as unsigned numbers, and \<open>cont_count_max - 1\<close> becomes
  the \<open>int32_t\<close> member by conversion. The length \<open>r_len\<close> is a \<open>uint16_t\<close>.
\<close>

definition wmt_cont_max_parse :: "hid_consts \<Rightarrow> kernel_ops \<Rightarrow> imt_softc \<Rightarrow> buffer \<Rightarrow> 16 word \<Rightarrow> imt_softc" where
  "wmt_cont_max_parse K ops s r_ptr r_len =
     (let ccm = hid_get_data_unsigned ops r_ptr (ucast r_len) (sc_cont_max_loc s);
          ccm1 = (if ccm > of_nat (MAX_MT_SLOTS K) then of_nat (MAX_MT_SLOTS K) else ccm)
      in if ccm1 > 0 \<and> ccm1 \<noteq> ai_max (sc_ai s WMT_SLOT) + 1
         then s\<lparr>sc_ai := (sc_ai s)(WMT_SLOT := (sc_ai s WMT_SLOT)\<lparr>ai_max := ccm1 - 1\<rparr>)\<rparr>
         else s)"

section \<open>imt_set_input_mode\<close>

datatype imt_input_mode =
  IMT_INPUT_MODE_MOUSE | IMT_INPUT_MODE_MT_TOUCHSCREEN | IMT_INPUT_MODE_MT_TOUCHPAD

fun input_mode_value :: "imt_input_mode \<Rightarrow> u32" where
  "input_mode_value IMT_INPUT_MODE_MOUSE = 0x0"
| "input_mode_value IMT_INPUT_MODE_MT_TOUCHSCREEN = 0x2"
| "input_mode_value IMT_INPUT_MODE_MT_TOUCHPAD = 0x3"

text \<open>\<open>bzero(b + off, n)\<close> on the memory at \<open>b\<close>.\<close>

definition bzero :: "buffer \<Rightarrow> int \<Rightarrow> nat \<Rightarrow> buffer" where
  "bzero b off n = (\<lambda>i. if off \<le> i \<and> i < off + int n then 0 else b i)"

text \<open>
  The read-modify-write sequence of \<open>imt_set_input_mode\<close> (lines 867-879): it returns
  the error number of \<open>iichid_set_report\<close> and leaves the scratch buffer \<open>sc->buf\<close> as
  the second component shows.
\<close>

definition input_mode_rmw :: "kernel_ops \<Rightarrow> imt_softc \<Rightarrow> imt_input_mode \<Rightarrow> int \<times> imt_softc" where
  "input_mode_rmw ops s mode =
     (case iichid_get_report ops (sc_buf s) (sc_input_mode_rlen s) (sc_input_mode_rid s) of
        (error, b1) \<Rightarrow>
          let b2 = (if error \<noteq> 0 then bzero b1 0 (unat (sc_input_mode_rlen s)) else b1);
              b3 = hid_put_data_unsigned ops b2 (sc_input_mode_rlen s) (sc_input_mode_loc s)
                     (input_mode_value mode)
          in (iichid_set_report ops b3 (sc_input_mode_rlen s) (sc_input_mode_rid s),
              s\<lparr>sc_buf := b3\<rparr>))"

definition imt_set_input_mode :: "hid_consts \<Rightarrow> kernel_ops \<Rightarrow> imt_softc \<Rightarrow> imt_input_mode \<Rightarrow> int \<times> imt_softc" where
  "imt_set_input_mode K ops s mode =
     (if sc_input_mode_rlen s = 0 \<and> sc_input_mode_rlen s > WMT_BSIZE then (EINVAL K, s)
      else input_mode_rmw ops s mode)"

section \<open>imt_intr\<close>

text \<open>
  The scratch values of one contact (lines 491-496): \<open>slot_data\<close> is cleared, then
  every supported usage with a location of non-zero size is decoded from the report.
\<close>

definition read_slot_data :: "kernel_ops \<Rightarrow> imt_softc \<Rightarrow> buffer \<Rightarrow> s32 \<Rightarrow> nat \<Rightarrow> nat \<Rightarrow> u32" where
  "read_slot_data ops s buf len c =
     fold (\<lambda>u sd. if USAGE_SUPPORTED (sc_caps s) u \<and> loc_size (sc_locs s c u) \<noteq> 0
                   then sd(u := hid_get_data_unsigned ops buf len (sc_locs s c u)) else sd)
       [0 ..< WMT_N_USAGES] (\<lambda>u. 0)"

text \<open>The events of lines 531-535: one per supported usage that has an event code.\<close>

definition push_usages :: "hid_consts \<Rightarrow> u32 \<Rightarrow> (nat \<Rightarrow> u32) \<Rightarrow> evdev_event list" where
  "push_usages K cps sd =
     map (\<lambda>u. Push_abs (mi_code (wmt_hid_map K ! u)) (sd u))
       (filter (\<lambda>u. USAGE_SUPPORTED cps u \<and> mi_code (wmt_hid_map K ! u) \<noteq> word_of_int (WMT_NO_CODE K))
          [0 ..< WMT_N_USAGES])"

text \<open>
  One iteration of the loop over the contacts (lines 489-540), on the softc and the
  events sent so far in this call; \<open>hist\<close> holds the events the evdev device received
  before the call. The table \<open>sc->locs\<close> has \<open>MAX_MT_SLOTS\<close> rows: an iteration that
  reads a row beyond them has no defined result, which is \<open>None\<close>.
\<close>

definition imt_intr_contact ::
  "hid_consts \<Rightarrow> kernel_ops \<Rightarrow> evdev_event list \<Rightarrow> buffer \<Rightarrow> s32 \<Rightarrow> nat \<Rightarrow>
   imt_softc \<times> evdev_event list \<Rightarrow> (imt_softc \<times> evdev_event list) option" where
  "imt_intr_contact K ops hist buf len c acc =
     (case acc of (s, out) \<Rightarrow>
        if c \<ge> MAX_MT_SLOTS K \<and> list_ex (USAGE_SUPPORTED (sc_caps s)) [0 ..< WMT_N_USAGES] then None
        else
          let sd = read_slot_data ops s buf len c;
              slot = evdev_get_mt_slot_by_tracking_id ops (hist @ out) (sd WMT_CONTACTID)
          in if slot = - 1 then Some (s\<lparr>sc_slot_data := sd\<rparr>, out)
             else if sd WMT_TIP_SWITCH \<noteq> 0 \<and>
                     \<not> (USAGE_SUPPORTED (sc_caps s) WMT_CONFIDENCE \<and> sd WMT_CONFIDENCE = 0)
             then
               let sd1 = sd(WMT_SLOT := slot);
                   sd2 = sd1(WMT_IN_RANGE := (if sd1 WMT_IN_RANGE = 0 then 1 else 0));
                   width = drop_bit 1 (sd2 WMT_WIDTH);
                   height = drop_bit 1 (sd2 WMT_HEIGHT);
                   sd3 = sd2(WMT_ORIENTATION := (if width > height then 1 else 0));
                   sd4 = sd3(WMT_MAJOR := max width height);
                   sd5 = sd4(WMT_MINOR := min width height)
               in Some (s\<lparr>sc_slot_data := sd5\<rparr>, out @ push_usages K (sc_caps s) sd5)
             else Some (s\<lparr>sc_slot_data := sd\<rparr>,
                        out @ [Push_abs (word_of_int (ABS_MT_SLOT K)) slot,
                               Push_abs (word_of_int (ABS_MT_TRACKING_ID K)) (- 1)]))"

fun imt_intr_contacts ::
  "hid_consts \<Rightarrow> kernel_ops \<Rightarrow> evdev_event list \<Rightarrow> buffer \<Rightarrow> s32 \<Rightarrow> nat list \<Rightarrow>
   imt_softc \<times> evdev_event list \<Rightarrow> (imt_softc \<times> evdev_event list) option" where
  "imt_intr_contacts K ops hist buf len [] acc = Some acc"
| "imt_intr_contacts K ops hist buf len (c # cs) acc =
     (case imt_intr_contact K ops hist buf len c acc of
        None \<Rightarrow> None
      | Some acc' \<Rightarrow> imt_intr_contacts K ops hist buf len cs acc')"

text \<open>
  The number of contacts the call processes: the second value of \<open>cont_count\<close>
  (line 486), from the softc in which a non-zero contact count has replaced
  \<open>nconts_todo\<close>.
\<close>

definition imt_cont_count :: "imt_softc \<Rightarrow> u32" where
  "imt_cont_count s = min (sc_nconts_todo s) (sc_nconts_per_report s)"

text \<open>
  Lines 444-445: a report shorter than \<open>sc->isize\<close> is filled with zeros up to that
  size. \<open>len\<close> is an \<open>int\<close>; \<open>len < sc->isize\<close> compares it with a \<open>uint32_t\<close>, as
  unsigned numbers.
\<close>

definition imt_zero_extend :: "imt_softc \<Rightarrow> buffer \<Rightarrow> s32 \<Rightarrow> buffer" where
  "imt_zero_extend s buf len =
     (if len < sc_isize s then bzero buf (sint len) (unat (sc_isize s - len)) else buf)"

text \<open>The contact count field of the report: the first value of \<open>cont_count\<close> (line 456).\<close>

definition imt_count :: "kernel_ops \<Rightarrow> imt_softc \<Rightarrow> buffer \<Rightarrow> s32 \<Rightarrow> u32" where
  "imt_count ops s buf len =
     hid_get_data_unsigned ops (imt_zero_extend s buf len) len (sc_cont_count_loc s)"

text \<open>Lines 471-472: a non-zero contact count replaces \<open>sc->nconts_todo\<close>.\<close>

definition imt_todo :: "kernel_ops \<Rightarrow> imt_softc \<Rightarrow> buffer \<Rightarrow> s32 \<Rightarrow> imt_softc" where
  "imt_todo ops s buf len =
     (if imt_count ops s buf len \<noteq> 0 then s\<lparr>sc_nconts_todo := imt_count ops s buf len\<rparr> else s)"

text \<open>
  \<open>imt_intr(context, buf, len, id)\<close>. The result holds the softc, the buffer and the
  events sent to the evdev device by this call, in their order.
\<close>

definition imt_intr ::
  "hid_consts \<Rightarrow> kernel_ops \<Rightarrow> imt_softc \<Rightarrow> evdev_event list \<Rightarrow> buffer \<Rightarrow> s32 \<Rightarrow> u8 \<Rightarrow>
   (imt_softc \<times> buffer \<times> evdev_event list) option" where
  "imt_intr K ops s hist buf len rid =
     (if sc_report_id s \<noteq> rid then Some (s, buf, [])
      else
        let buf1 = imt_zero_extend s buf len;
            s1 = imt_todo ops s buf len
        in case imt_intr_contacts K ops hist buf1 len [0 ..< unat (imt_cont_count s1)] (s1, []) of
             None \<Rightarrow> None
           | Some (s2, out) \<Rightarrow>
               let s3 = s2\<lparr>sc_nconts_todo := sc_nconts_todo s2 - imt_cont_count s1\<rparr>
               in Some (s3, buf1, if sc_nconts_todo s3 = 0 then out @ [Sync] else out))"

text \<open>
  The transport delivers the reports one at a time: \<open>imt_intr\<close> on each report of a
  list, every call on the softc the call before left and on an evdev device that has
  received the events of the calls before. The result holds the events of each call.
\<close>

fun imt_intr_reports ::
  "hid_consts \<Rightarrow> kernel_ops \<Rightarrow> imt_softc \<Rightarrow> evdev_event list \<Rightarrow> (buffer \<times> s32 \<times> u8) list \<Rightarrow>
   (imt_softc \<times> evdev_event list list) option" where
  "imt_intr_reports K ops s hist [] = Some (s, [])"
| "imt_intr_reports K ops s hist (r # rs) =
     (case r of (buf, len, rid) \<Rightarrow>
        (case imt_intr K ops s hist buf len rid of
           None \<Rightarrow> None
         | Some (s1, buf1, out) \<Rightarrow>
             (case imt_intr_reports K ops s1 (hist @ out) rs of
                None \<Rightarrow> None
              | Some (s2, outs) \<Rightarrow> Some (s2, out # outs))))"

section \<open>Example constants\<close>

text \<open>
  The values the parameters have in FreeBSD (usbhid.h, input.h, errno.h), for the
  concrete examples; \<open>HID_USAGE2(p, u)\<close> is \<open>(p << 16) | u\<close>, read as an \<open>int32_t\<close>.
\<close>

definition freebsd_consts :: hid_consts where
  "freebsd_consts =
     \<lparr>HID_USAGE2 = (\<lambda>p u. sint (push_bit 16 (word_of_int p :: 32 word) OR word_of_int u)),
      HUP_GENERIC_DESKTOP = 0x01, HUP_DIGITIZERS = 0x0d, HUP_MICROSOFT = 0xff00,
      HUG_X = 0x30, HUG_Y = 0x31,
      HUD_TOUCHSCREEN = 0x04, HUD_TOUCHPAD = 0x05, HUD_CONFIG = 0x0e, HUD_FINGER = 0x22,
      HUD_TIP_PRESSURE = 0x30, HUD_IN_RANGE = 0x32, HUD_TIP_SWITCH = 0x42,
      HUD_CONFIDENCE = 0x47, HUD_WIDTH = 0x48, HUD_HEIGHT = 0x49, HUD_CONTACTID = 0x51,
      HUD_INPUT_MODE = 0x52, HUD_CONTACTCOUNT = 0x54, HUD_CONTACT_MAX = 0x55,
      HUD_SCAN_TIME = 0x56,
      HIO_CONST = 0x001, HIO_VARIABLE = 0x002, HIO_RELATIVE = 0x004,
      ABS_MT_SLOT = 0x2f, ABS_MT_TOUCH_MAJOR = 0x30, ABS_MT_TOUCH_MINOR = 0x31,
      ABS_MT_ORIENTATION = 0x34, ABS_MT_POSITION_X = 0x35, ABS_MT_POSITION_Y = 0x36,
      ABS_MT_TRACKING_ID = 0x39, ABS_MT_PRESSURE = 0x3a, ABS_MT_DISTANCE = 0x3b,
      ABS_MT_TOOL_X = 0x3c, ABS_MT_TOOL_Y = 0x3d, ABS_MAX = 0x3f,
      MAX_MT_SLOTS = 16, EINVAL = 22\<rparr>"

text \<open>
  An instance of the functions: the decoder reads the byte of the buffer that holds the
  bit position (0 at and beyond \<open>len\<close>, and for a location of size 0), the encoder
  stores the low byte of the value there, the resolution is 0, a contact's slot is its
  tracking id, and the reports are read as they are and written with success.
\<close>

definition example_ops :: kernel_ops where
  "example_ops =
     \<lparr>hid_get_data_unsigned = (\<lambda>buf len l.
        if loc_size l = 0 \<or> len \<le> drop_bit 3 (loc_pos l) then 0
        else ucast (buf (uint (drop_bit 3 (loc_pos l))))),
      hid_put_data_unsigned = (\<lambda>buf len l v. buf(uint (drop_bit 3 (loc_pos l)) := ucast v)),
      hid_item_resolution = (\<lambda>hi. 0),
      evdev_get_mt_slot_by_tracking_id = (\<lambda>evs tid. tid),
      iichid_get_report = (\<lambda>buf len rid. (0, buf)),
      iichid_set_report = (\<lambda>buf len rid. 0)\<rparr>"

text \<open>A softc filled with zeros, as the bus hands it to \<open>imt_attach\<close>.\<close>

definition zero_loc :: hid_location where
  "zero_loc = \<lparr>loc_size = 0, loc_count = 0, loc_pos = 0\<rparr>"

definition zero_softc :: imt_softc where
  "zero_softc =
     \<lparr>sc_ai = (\<lambda>u. \<lparr>ai_min = 0, ai_max = 0, ai_res = 0\<rparr>), sc_locs = (\<lambda>c u. zero_loc),
      sc_cont_count_loc = zero_loc, sc_slot_data = (\<lambda>u. 0), sc_caps = 0, sc_isize = 0,
      sc_nconts_per_report = 0, sc_nconts_todo = 0, sc_report_id = 0,
      sc_cont_max_loc = zero_loc, sc_cont_max_rlen = 0, sc_cont_max_rid = 0,
      sc_thqa_cert_rlen = 0, sc_thqa_cert_rid = 0, sc_input_mode_loc = zero_loc,
      sc_input_mode_rlen = 0, sc_input_mode_rid = 0, sc_buf = (\<lambda>i. 0)\<rparr>"

section \<open>Example items\<close>

text \<open>
  An absolute data item of kind \<open>k\<close> in report \<open>rid\<close> at bit position \<open>p\<close>, of
  \<open>c\<close> fields of \<open>s\<close> bits, at collection depth 1. It is used to build the concrete
  descriptors of the examples.
\<close>

definition field_item :: "hid_kind \<Rightarrow> s32 \<Rightarrow> u32 \<Rightarrow> u32 \<Rightarrow> u32 \<Rightarrow> hid_item" where
  "field_item k rid p s c =
     \<lparr>usage = 0, collevel = 1, kind = k, flags = 2, report_ID = rid,
      logical_minimum = 0, logical_maximum = 0, physical_minimum = 0, physical_maximum = 0,
      unit_exponent = 0, unit = 0, loc = \<lparr>loc_size = s, loc_count = c, loc_pos = p\<rparr>\<rparr>"

text \<open>
  An item of kind \<open>k\<close> at depth \<open>lvl\<close> with usage \<open>u\<close> in report \<open>rid\<close>: an
  absolute field of \<open>sz\<close> bits at bit position \<open>p\<close> with the logical maximum
  \<open>lmax\<close>.
\<close>

definition usage_item :: "hid_kind \<Rightarrow> int \<Rightarrow> s32 \<Rightarrow> s32 \<Rightarrow> u32 \<Rightarrow> u32 \<Rightarrow> s32 \<Rightarrow> hid_item" where
  "usage_item k lvl u rid p sz lmax =
     \<lparr>usage = u, collevel = lvl, kind = k, flags = 2, report_ID = rid,
      logical_minimum = 0, logical_maximum = lmax, physical_minimum = 0, physical_maximum = 0,
      unit_exponent = 0, unit = 0, loc = \<lparr>loc_size = sz, loc_count = 1, loc_pos = p\<rparr>\<rparr>"

text \<open>
  The descriptor of a touchscreen with one finger: a feature report 2 with the contact
  count maximum, 5, and an input report 1 with the contact count, the scan time and, in
  the finger collection, the tip switch, X, Y and the contact id.
\<close>

definition touchscreen_desc :: hid_data where
  "touchscreen_desc k =
     (if k = hid_feature then
        [usage_item hid_collection 1 0x000d0004 0 0 0 0,
         usage_item hid_feature 1 0x000d0055 2 0 8 5,
         usage_item hid_endcollection 0 0x000d0004 2 0 0 0]
      else if k = hid_input then
        [usage_item hid_collection 1 0x000d0004 0 0 0 0,
         usage_item hid_input 1 0x000d0054 1 0 8 5,
         usage_item hid_input 1 0x000d0056 1 8 16 65535,
         usage_item hid_collection 2 0x000d0022 1 0 0 0,
         usage_item hid_input 2 0x000d0042 1 24 8 1,
         usage_item hid_input 2 0x00010030 1 32 16 4095,
         usage_item hid_input 2 0x00010031 1 48 16 4095,
         usage_item hid_input 2 0x000d0051 1 64 8 255,
         usage_item hid_endcollection 1 0x000d0022 1 0 0 0,
         usage_item hid_endcollection 0 0x000d0004 1 0 0 0]
      else [])"

text \<open>The same descriptor without the Y field of the finger.\<close>

definition touchscreen_desc_no_y :: hid_data where
  "touchscreen_desc_no_y k =
     filter (\<lambda>h. usage h \<noteq> 0x00010031) (touchscreen_desc k)"

text \<open>
  The touchscreen descriptor with two X fields and two Y fields in the finger collection,
  all four of no width.
\<close>

definition zero_width_desc :: hid_data where
  "zero_width_desc k =
     (if k = hid_feature then
        [usage_item hid_collection 1 0x000d0004 0 0 0 0,
         usage_item hid_feature 1 0x000d0055 2 0 8 5,
         usage_item hid_endcollection 0 0x000d0004 2 0 0 0]
      else if k = hid_input then
        [usage_item hid_collection 1 0x000d0004 0 0 0 0,
         usage_item hid_input 1 0x000d0054 1 0 8 5,
         usage_item hid_input 1 0x000d0056 1 8 16 65535,
         usage_item hid_collection 2 0x000d0022 1 0 0 0,
         usage_item hid_input 2 0x000d0042 1 24 8 1,
         usage_item hid_input 2 0x00010030 1 32 0 4095,
         usage_item hid_input 2 0x00010030 1 32 0 4095,
         usage_item hid_input 2 0x00010031 1 32 0 4095,
         usage_item hid_input 2 0x00010031 1 32 0 4095,
         usage_item hid_input 2 0x000d0051 1 32 8 255,
         usage_item hid_endcollection 1 0x000d0022 1 0 0 0,
         usage_item hid_endcollection 0 0x000d0004 1 0 0 0]
      else [])"

text \<open>
  A softc that is not filled with zeros: row 0 of \<open>sc->locs\<close> holds the location of
  an X field already, as an earlier call of \<open>wmt_hid_parse\<close> on \<open>touchscreen_desc\<close>
  leaves it.
\<close>

definition used_softc :: imt_softc where
  "used_softc = zero_softc
     \<lparr>sc_locs := (\<lambda>c u. if c = 0 \<and> u = WMT_X
        then \<lparr>loc_size = 16, loc_count = 1, loc_pos = 32\<rparr> else zero_loc)\<rparr>"

text \<open>A collection item of kind \<open>k\<close> with the level and the usage given.\<close>

definition coll_item :: "hid_kind \<Rightarrow> int \<Rightarrow> s32 \<Rightarrow> hid_item" where
  "coll_item k lvl u =
     \<lparr>usage = u, collevel = lvl, kind = k, flags = 0, report_ID = 0,
      logical_minimum = 0, logical_maximum = 0, physical_minimum = 0, physical_maximum = 0,
      unit_exponent = 0, unit = 0, loc = zero_loc\<rparr>"

text \<open>
  The softc of a digitizer with one finger per report: the report, of id 1, holds the
  contact count in byte 0 and the tip switch, the in-range flag, X, Y and the contact id
  of the finger in bytes 1 to 5.
\<close>

definition loc8 :: "u32 \<Rightarrow> hid_location" where
  "loc8 p = \<lparr>loc_size = 8, loc_count = 1, loc_pos = p\<rparr>"

definition touch_softc :: imt_softc where
  "touch_softc = zero_softc
     \<lparr>sc_locs := (\<lambda>c u. if c = 0 then
         (if u = WMT_TIP_SWITCH then loc8 8 else if u = WMT_IN_RANGE then loc8 16
          else if u = WMT_X then loc8 24 else if u = WMT_Y then loc8 32
          else if u = WMT_CONTACTID then loc8 40 else zero_loc) else zero_loc),
      sc_cont_count_loc := loc8 0, sc_caps := 0x171, sc_isize := 6,
      sc_nconts_per_report := 1, sc_report_id := 1\<rparr>"

text \<open>The buffer that holds the bytes of a list, and zeros around them.\<close>

definition bytes_buf :: "u8 list \<Rightarrow> buffer" where
  "bytes_buf xs = (\<lambda>i. if 0 \<le> i \<and> i < int (length xs) then xs ! nat i else 0)"

text \<open>The values of the in-range events (the code of \<open>WMT_IN_RANGE\<close>) among the events of a call.\<close>

definition in_range_values :: "hid_consts \<Rightarrow> evdev_event list \<Rightarrow> s32 list" where
  "in_range_values K out =
     concat (map (\<lambda>e. case e of
                         Push_abs c v \<Rightarrow> if c = mi_code (wmt_hid_map K ! WMT_IN_RANGE) then [v] else []
                       | Sync \<Rightarrow> []) out)"

section \<open>Words read as numbers\<close>

lemma sint_small: "unat (w :: 32 word) < 2 ^ 31 \<Longrightarrow> sint w = int (unat w)"
proof -
  assume a: "unat w < 2 ^ 31"
  have u: "uint w = int (unat w)" by (rule uint_nat)
  have "int (unat w) < int (2 ^ 31)" using a by (simp only: of_nat_less_iff)
  then have "int (unat w) < 2 ^ 31" by simp
  moreover have "- (2 ^ 31) \<le> int (unat w)" by (rule order_trans [of _ 0]) simp_all
  ultimately have "signed_take_bit 31 (int (unat w)) = int (unat w)"
    by (rule signed_take_bit_int_eq_self [rotated])
  then show ?thesis unfolding sint_uint u by simp
qed

lemma sint_div8: "sint ((t :: 32 word) div 8) = int (unat t div 8)"
proof -
  have u: "unat (t div 8) = unat t div 8" by (simp add: unat_div)
  have "unat t < 2 ^ LENGTH(32)" by (rule unsigned_less)
  then have "unat t < 2 ^ 32" by simp
  then have "unat t div 8 < 2 ^ 31" by simp
  then show ?thesis using sint_small [of "t div 8"] u by simp
qed

section \<open>The report size\<close>

lemma fold_max_Max: "xs \<noteq> [] \<Longrightarrow> fold max xs (a::nat) = max a (Max (set xs))"
  using Max.set_eq_fold [of a xs] by simp

lemma fold_min_Min: "xs \<noteq> [] \<Longrightarrow> fold min xs (a::nat) = min a (Min (set xs))"
  using Min.set_eq_fold [of a xs] by simp

lemma report_size_loop_no_match:
  "matching_items k rid hs = [] \<Longrightarrow> report_size_loop k rid hs hl = hl"
proof (induction hs arbitrary: hl)
  case Nil
  then show ?case by simp
next
  case (Cons h hs)
  then have nm: "\<not> (kind h = k \<and> sint (report_ID h) = uint rid)"
    and rest: "matching_items k rid hs = []"
    by (auto simp: matching_items_def split: if_splits)
  from nm have "report_size_step k rid h hl = hl"
    by (cases hl) (auto simp: report_size_step_def)
  with Cons.IH [OF rest] show ?case by simp
qed

lemma wmt_hid_report_size_nonneg: "0 \<le> wmt_hid_report_size d k rid"
  by (simp add: wmt_hid_report_size_def sint_div8 Let_def split: prod.splits)

lemma wmt_hid_report_size_no_match:
  "matching_items k rid (d k) = [] \<Longrightarrow> wmt_hid_report_size d k rid = 0"
  by (simp add: wmt_hid_report_size_def report_size_loop_no_match sint_div8)

lemma item_end32_mod: "item_end32 h = item_end h mod 2 ^ 32"
  by (simp add: item_end32_def item_end_def unat_word_ariths mod_simps)

text \<open>
  The loop invariant, for every stream: \<open>hpos\<close> is the running maximum of the computed
  end positions and \<open>lpos\<close> the running minimum of the start positions.
\<close>

lemma report_size_loop_unat32:
  "unat (fst (report_size_loop k rid hs (hp, lp))) =
     fold max (map item_end32 (matching_items k rid hs)) (unat hp) \<and>
   unat (snd (report_size_loop k rid hs (hp, lp))) =
     fold min (map item_start (matching_items k rid hs)) (unat lp)"
proof (induction hs arbitrary: hp lp)
  case Nil
  then show ?case by (simp add: matching_items_def)
next
  case (Cons h hs)
  show ?case
  proof (cases "kind h = k \<and> sint (report_ID h) = uint rid")
    case False
    then have "matching_items k rid (h # hs) = matching_items k rid hs"
      by (auto simp: matching_items_def)
    moreover from False have "report_size_step k rid h (hp, lp) = (hp, lp)"
      by (auto simp: report_size_step_def)
    ultimately show ?thesis using Cons by simp
  next
    case True
    then have m: "matching_items k rid (h # hs) = h # matching_items k rid hs"
      by (simp add: matching_items_def)
    let ?t = "loc_pos (loc h) + (loc_size (loc h) * loc_count (loc h))"
    let ?hp = "if hp < ?t then ?t else hp"
    let ?lp = "if lp > loc_pos (loc h) then loc_pos (loc h) else lp"
    have st: "report_size_step k rid h (hp, lp) = (?hp, ?lp)"
      using True by (simp add: report_size_step_def Let_def)
    have h1: "unat ?hp = max (item_end32 h) (unat hp)"
      by (auto simp: item_end32_def word_less_nat_alt max_def)
    have h2: "unat ?lp = min (item_start h) (unat lp)"
      by (auto simp: word_less_nat_alt min_def item_start_def)
    have "report_size_loop k rid (h # hs) (hp, lp) = report_size_loop k rid hs (?hp, ?lp)"
      by (simp add: st)
    then show ?thesis
      using Cons.IH [of ?hp ?lp]
      by (simp only: m h1 h2 list.map fold_simps)
  qed
qed

lemma item_start_less: "item_start h < 2 ^ 32"
proof -
  have "unat (loc_pos (loc h)) < 2 ^ LENGTH(32)" by (rule unsigned_less)
  then show ?thesis by (simp add: item_start_def)
qed

text \<open>After the loop, on a stream with a matching item.\<close>

lemma report_size_loop_computed:
  assumes ne: "matching_items k rid hs \<noteq> []"
    and r: "report_size_loop k rid hs (0, 0xFFFFFFFF) = (hpos, lpos)"
  shows "unat hpos = max_end32 (matching_items k rid hs)"
    and "unat lpos = min_start (matching_items k rid hs)"
proof -
  let ?ms = "matching_items k rid hs"
  from report_size_loop_unat32 [of k rid hs 0 "0xFFFFFFFF"] r
  have hp: "unat hpos = fold max (map item_end32 ?ms) 0"
    and lp: "unat lpos = fold min (map item_start ?ms) (unat (0xFFFFFFFF :: u32))"
    by simp_all
  have ne': "map item_end32 ?ms \<noteq> []" "map item_start ?ms \<noteq> []" using ne by simp_all
  show "unat hpos = max_end32 ?ms"
    using hp fold_max_Max [OF ne'(1), of 0] by (simp add: max_end32_def)
  have lpm: "unat lpos = min (unat (0xFFFFFFFF :: u32)) (min_start ?ms)"
    using lp fold_min_Min [OF ne'(2)] by (simp add: min_start_def)
  obtain m where m: "m \<in> set ?ms" using ne by (cases ?ms) auto
  have "min_start ?ms \<le> item_start m" using m by (simp add: min_start_def)
  also have "item_start m < 2 ^ 32" by (rule item_start_less)
  finally show "unat lpos = min_start ?ms" using lpm by simp
qed

text \<open>The guard of lines 579-582: a computed maximum end below the minimum start gives 0.\<close>

lemma wmt_hid_report_size_guard:
  assumes ne: "matching_items k rid (d k) \<noteq> []"
    and lt: "max_end32 (matching_items k rid (d k)) < min_start (matching_items k rid (d k))"
  shows "wmt_hid_report_size d k rid = 0"
proof -
  obtain hpos lpos where r: "report_size_loop k rid (d k) (0, 0xFFFFFFFF) = (hpos, lpos)"
    by (cases "report_size_loop k rid (d k) (0, 0xFFFFFFFF)")
  from report_size_loop_computed [OF ne r] lt have "hpos < lpos"
    by (simp add: word_less_nat_alt)
  then show ?thesis using r by (simp add: wmt_hid_report_size_def Let_def sint_div8)
qed

text \<open>Past the guard the difference is the true one, and only the addition of 7 can wrap.\<close>

lemma wmt_hid_report_size_computed:
  assumes ne: "matching_items k rid (d k) \<noteq> []"
    and le: "min_start (matching_items k rid (d k)) \<le> max_end32 (matching_items k rid (d k))"
  shows "wmt_hid_report_size d k rid =
    int (((max_end32 (matching_items k rid (d k)) - min_start (matching_items k rid (d k)) + 7)
            mod 2 ^ 32) div 8)"
proof -
  let ?ms = "matching_items k rid (d k)"
  obtain hpos lpos where r: "report_size_loop k rid (d k) (0, 0xFFFFFFFF) = (hpos, lpos)"
    by (cases "report_size_loop k rid (d k) (0, 0xFFFFFFFF)")
  note c = report_size_loop_computed [OF ne r]
  have lh: "lpos \<le> hpos" using le c by (simp add: word_le_nat_alt)
  have t: "unat (hpos - lpos) = max_end32 ?ms - min_start ?ms"
    using unat_sub [OF lh] c by simp
  have t7: "unat (hpos - lpos + 7) = (max_end32 ?ms - min_start ?ms + 7) mod 2 ^ 32"
    using t by (simp add: unat_word_ariths)
  have "wmt_hid_report_size d k rid = sint ((hpos - lpos + 7) div 8)"
    using r lh by (simp add: wmt_hid_report_size_def Let_def not_less [symmetric])
  then show ?thesis using t7 by (simp add: sint_div8)
qed

lemma wmt_hid_report_size_ceil:
  assumes ne: "matching_items k rid (d k) \<noteq> []"
    and le: "min_start (matching_items k rid (d k)) \<le> max_end32 (matching_items k rid (d k))"
    and sp: "max_end32 (matching_items k rid (d k)) - min_start (matching_items k rid (d k)) + 7 < 2 ^ 32"
  shows "wmt_hid_report_size d k rid =
    int ((max_end32 (matching_items k rid (d k)) - min_start (matching_items k rid (d k)) + 7) div 8)"
  using wmt_hid_report_size_computed [where d = d and k = k and rid = rid, OF ne le] sp by simp

text \<open>While no end position wraps, the computed maximum end is the true one.\<close>

lemma max_end32_exact:
  assumes "\<forall>h \<in> set ms. item_end h < 2 ^ 32"
  shows "max_end32 ms = max_end ms"
proof -
  have "map item_end32 ms = map item_end ms" using assms by (simp add: item_end32_mod)
  then show ?thesis by (simp add: max_end32_def max_end_def)
qed

lemma min_start_le_max_end:
  assumes "ms \<noteq> []"
  shows "min_start ms \<le> max_end ms"
proof -
  obtain m where m: "m \<in> set ms" using assms by (cases ms) auto
  have "min_start ms \<le> item_start m" using m by (simp add: min_start_def)
  also have "item_start m \<le> item_end m" by (simp add: item_start_def item_end_def)
  also have "item_end m \<le> max_end ms" using m by (simp add: max_end_def)
  finally show ?thesis .
qed

lemma wmt_hid_report_size_exact:
  assumes ne: "matching_items k rid (d k) \<noteq> []"
    and nw: "\<forall>h \<in> set (matching_items k rid (d k)). item_end h < 2 ^ 32"
    and sp: "max_end (matching_items k rid (d k)) - min_start (matching_items k rid (d k)) + 7 < 2 ^ 32"
  shows "wmt_hid_report_size d k rid =
    int ((max_end (matching_items k rid (d k)) - min_start (matching_items k rid (d k)) + 7) div 8)"
  using wmt_hid_report_size_ceil [where d = d and k = k and rid = rid, OF ne]
    min_start_le_max_end [OF ne] sp
  unfolding max_end32_exact [OF nw] by simp

text \<open>
  C3, as the specification states it, for every item stream: the size is
  \<open>report_size_spec\<close>. It fails where the 32-bit arithmetic wraps: one input field of
  \<open>0xFFFFFFFF\<close> bits at offset 0 spans \<open>2 ^ 32 - 1\<close> bits, \<open>temp + 7\<close> wraps to 6 and
  the function returns 0 bytes, not the \<open>2 ^ 29\<close> bytes of the rounded-up span. The end
  position of the field does not wrap: the computed maximum end is the true one, and it
  is not below the minimum start.
\<close>

theorem wmt_hid_report_size_wraps:
  "wmt_hid_report_size (\<lambda>k. [field_item hid_input 0 0 0xFFFFFFFF 1]) hid_input 0
     \<noteq> report_size_spec [field_item hid_input 0 0 0xFFFFFFFF 1] hid_input 0 \<and>
   wmt_hid_report_size (\<lambda>k. [field_item hid_input 0 0 0xFFFFFFFF 1]) hid_input 0 = 0 \<and>
   report_size_spec [field_item hid_input 0 0 0xFFFFFFFF 1] hid_input 0 = 2 ^ 29 \<and>
   max_end32 [field_item hid_input 0 0 0xFFFFFFFF 1] = max_end [field_item hid_input 0 0 0xFFFFFFFF 1] \<and>
   min_start [field_item hid_input 0 0 0xFFFFFFFF 1] < max_end32 [field_item hid_input 0 0 0xFFFFFFFF 1]"
  by (simp add: wmt_hid_report_size_def report_size_step_def field_item_def report_size_spec_def
      matching_items_def max_end_def max_end32_def min_start_def item_start_def item_end_def
      item_end32_def)

text \<open>
  C3, amended. For every item stream, kind and report id the returned size is never
  negative. It is 0 when no item matched (an empty stream included) and when the
  computed maximum end is below the minimum start. Otherwise the difference of the two
  is taken without underflow and the size is that difference plus 7, in 32 bits, divided
  by 8: the span in bytes, rounded up, whenever the span plus 7 fits in 32 bits. The
  computed maximum end is the maximum of offset + width * count whenever no matching
  item's end position exceeds 32 bits.
\<close>

theorem wmt_hid_report_size_span:
  "0 \<le> wmt_hid_report_size d k rid \<and>
   (matching_items k rid (d k) = [] \<longrightarrow> wmt_hid_report_size d k rid = 0) \<and>
   (matching_items k rid (d k) \<noteq> [] \<and>
    max_end32 (matching_items k rid (d k)) < min_start (matching_items k rid (d k)) \<longrightarrow>
      wmt_hid_report_size d k rid = 0) \<and>
   (matching_items k rid (d k) \<noteq> [] \<and>
    min_start (matching_items k rid (d k)) \<le> max_end32 (matching_items k rid (d k)) \<longrightarrow>
      wmt_hid_report_size d k rid =
        int (((max_end32 (matching_items k rid (d k)) - min_start (matching_items k rid (d k)) + 7)
                mod 2 ^ 32) div 8)) \<and>
   (matching_items k rid (d k) \<noteq> [] \<and>
    min_start (matching_items k rid (d k)) \<le> max_end32 (matching_items k rid (d k)) \<and>
    max_end32 (matching_items k rid (d k)) - min_start (matching_items k rid (d k)) + 7 < 2 ^ 32 \<longrightarrow>
      wmt_hid_report_size d k rid =
        int ((max_end32 (matching_items k rid (d k)) - min_start (matching_items k rid (d k)) + 7) div 8)) \<and>
   (matching_items k rid (d k) \<noteq> [] \<and>
    (\<forall>h \<in> set (matching_items k rid (d k)). item_end h < 2 ^ 32) \<and>
    max_end (matching_items k rid (d k)) - min_start (matching_items k rid (d k)) + 7 < 2 ^ 32 \<longrightarrow>
      max_end32 (matching_items k rid (d k)) = max_end (matching_items k rid (d k)) \<and>
      wmt_hid_report_size d k rid =
        int ((max_end (matching_items k rid (d k)) - min_start (matching_items k rid (d k)) + 7) div 8))"
  using wmt_hid_report_size_nonneg [of d k rid] wmt_hid_report_size_no_match [of k rid d]
    wmt_hid_report_size_guard [of k rid d] wmt_hid_report_size_computed [of k rid d]
    wmt_hid_report_size_ceil [of k rid d] wmt_hid_report_size_exact [of k rid d]
    max_end32_exact [of "matching_items k rid (d k)"]
  by blast

theorem wmt_hid_report_size_span_witness:
  "matching_items hid_input 1
     [field_item hid_input 1 8 4 3, field_item hid_feature 1 8 4 300, field_item hid_input 1 16 8 2] \<noteq> [] \<and>
   wmt_hid_report_size
     (\<lambda>k. [field_item hid_input 1 8 4 3, field_item hid_feature 1 8 4 300, field_item hid_input 1 16 8 2])
     hid_input 1 = 3 \<and>
   matching_items hid_input 0 [field_item hid_input 0 0xFFFFFFF8 8 2] \<noteq> [] \<and>
   max_end32 (matching_items hid_input 0 [field_item hid_input 0 0xFFFFFFF8 8 2]) <
     min_start (matching_items hid_input 0 [field_item hid_input 0 0xFFFFFFF8 8 2]) \<and>
   wmt_hid_report_size (\<lambda>k. [field_item hid_input 0 0xFFFFFFF8 8 2]) hid_input 0 = 0 \<and>
   matching_items hid_input 0 [] = [] \<and>
   wmt_hid_report_size (\<lambda>k. []) hid_input 0 = 0"
proof -
  let ?d = "\<lambda>k :: hid_kind.
    [field_item hid_input 1 8 4 3, field_item hid_feature 1 8 4 300, field_item hid_input 1 16 8 2]"
  let ?g = "\<lambda>k :: hid_kind. [field_item hid_input 0 0xFFFFFFF8 8 2]"
  have m: "matching_items hid_input 1 (?d hid_input) =
      [field_item hid_input 1 8 4 3, field_item hid_input 1 16 8 2]"
    by (simp add: matching_items_def field_item_def)
  have e: "\<forall>h \<in> set (matching_items hid_input 1 (?d hid_input)). item_end h < 2 ^ 32"
    unfolding m by (simp add: field_item_def item_end_def)
  have s: "max_end (matching_items hid_input 1 (?d hid_input)) = 32"
    "min_start (matching_items hid_input 1 (?d hid_input)) = 8"
    unfolding m by (simp_all add: field_item_def max_end_def min_start_def item_start_def item_end_def)
  have g: "matching_items hid_input 0 (?g hid_input) = [field_item hid_input 0 0xFFFFFFF8 8 2]"
    by (simp add: matching_items_def field_item_def)
  have gs: "max_end32 (matching_items hid_input 0 (?g hid_input)) = 8"
    "min_start (matching_items hid_input 0 (?g hid_input)) = 4294967288"
    unfolding g by (simp_all add: field_item_def max_end32_def min_start_def item_start_def item_end32_def)
  from wmt_hid_report_size_span [of ?d hid_input 1] e s m
  have 1: "wmt_hid_report_size ?d hid_input 1 = 3" by simp
  from wmt_hid_report_size_span [of ?g hid_input 0] g gs
  have 2: "wmt_hid_report_size ?g hid_input 0 = 0" by simp
  have n: "matching_items hid_input 0 [] = []" by (simp add: matching_items_def)
  from wmt_hid_report_size_span [of "\<lambda>k :: hid_kind. []" hid_input 0] n
  have 3: "wmt_hid_report_size (\<lambda>k. []) hid_input 0 = 0" by simp
  from 1 2 3 m g gs n show ?thesis by simp
qed

section \<open>The report decoder\<close>

lemma push_usages_no_sync: "Sync \<notin> set (push_usages K cps sd)"
  by (auto simp: push_usages_def)

lemma imt_intr_contact_shape:
  assumes "imt_intr_contact K ops hist buf len c (s, out) = Some (s', out')"
  shows "\<exists>sd ps. s' = s\<lparr>sc_slot_data := sd\<rparr> \<and> out' = out @ ps \<and> Sync \<notin> set ps"
proof -
  let ?sd = "read_slot_data ops s buf len c"
  let ?slot = "evdev_get_mt_slot_by_tracking_id ops (hist @ out) (?sd WMT_CONTACTID)"
  consider (skip) "?slot = - 1"
    | (active) "?slot \<noteq> - 1" "?sd WMT_TIP_SWITCH \<noteq> 0 \<and>
         \<not> (USAGE_SUPPORTED (sc_caps s) WMT_CONFIDENCE \<and> ?sd WMT_CONFIDENCE = 0)"
    | (release) "?slot \<noteq> - 1" "\<not> (?sd WMT_TIP_SWITCH \<noteq> 0 \<and>
         \<not> (USAGE_SUPPORTED (sc_caps s) WMT_CONFIDENCE \<and> ?sd WMT_CONFIDENCE = 0))"
    by blast
  then show ?thesis
  proof cases
    case skip
    with assms have "s' = s\<lparr>sc_slot_data := ?sd\<rparr> \<and> out' = out @ []"
      by (auto simp: imt_intr_contact_def Let_def split: if_splits)
    then show ?thesis by (metis empty_iff empty_set)
  next
    case active
    with assms obtain sd5 where "s' = s\<lparr>sc_slot_data := sd5\<rparr>"
      "out' = out @ push_usages K (sc_caps s) sd5"
      by (auto simp: imt_intr_contact_def Let_def split: if_splits)
    then show ?thesis using push_usages_no_sync by blast
  next
    case release
    with assms have "s' = s\<lparr>sc_slot_data := ?sd\<rparr>"
      "out' = out @ [Push_abs (word_of_int (ABS_MT_SLOT K)) ?slot,
                               Push_abs (word_of_int (ABS_MT_TRACKING_ID K)) (- 1)]"
      by (auto simp: imt_intr_contact_def Let_def split: if_splits)
    then show ?thesis by (intro exI [of _ ?sd] exI [of _ "[Push_abs (word_of_int (ABS_MT_SLOT K)) ?slot,
                               Push_abs (word_of_int (ABS_MT_TRACKING_ID K)) (- 1)]"]) simp
  qed
qed

lemma imt_intr_contact_defined:
  "c < MAX_MT_SLOTS K \<Longrightarrow> \<exists>r. imt_intr_contact K ops hist buf len c (s, out) = Some r"
  by (simp add: imt_intr_contact_def Let_def)

lemma imt_intr_contacts_shape:
  assumes "imt_intr_contacts K ops hist buf len cs (s, out) = Some (s', out')"
  shows "\<exists>sd ps. s' = s\<lparr>sc_slot_data := sd\<rparr> \<and> out' = out @ ps \<and> Sync \<notin> set ps"
  using assms
proof (induction cs arbitrary: s out)
  case Nil
  then have "s' = s\<lparr>sc_slot_data := sc_slot_data s\<rparr> \<and> out' = out @ [] \<and> Sync \<notin> set []" by simp
  then show ?case by blast
next
  case (Cons c cs)
  then obtain s1 out1 where c1: "imt_intr_contact K ops hist buf len c (s, out) = Some (s1, out1)"
    and r: "imt_intr_contacts K ops hist buf len cs (s1, out1) = Some (s', out')"
    by (auto split: option.splits)
  from imt_intr_contact_shape [OF c1] obtain sd1 ps1 where
    a: "s1 = s\<lparr>sc_slot_data := sd1\<rparr>" "out1 = out @ ps1" "Sync \<notin> set ps1" by blast
  from Cons.IH [OF r] obtain sd2 ps2 where
    b: "s' = s1\<lparr>sc_slot_data := sd2\<rparr>" "out' = out1 @ ps2" "Sync \<notin> set ps2" by blast
  have "s' = s\<lparr>sc_slot_data := sd2\<rparr> \<and> out' = out @ (ps1 @ ps2) \<and> Sync \<notin> set (ps1 @ ps2)"
    using a b by simp
  then show ?case by blast
qed

lemma imt_intr_contacts_defined:
  "\<forall>c \<in> set cs. c < MAX_MT_SLOTS K \<Longrightarrow> \<exists>r. imt_intr_contacts K ops hist buf len cs acc = Some r"
proof (induction cs arbitrary: acc)
  case Nil
  then show ?case by simp
next
  case (Cons c cs)
  obtain s out where acc: "acc = (s, out)" by (cases acc)
  from Cons.prems have "c < MAX_MT_SLOTS K" by simp
  from imt_intr_contact_defined [OF this] obtain r where
    "imt_intr_contact K ops hist buf len c (s, out) = Some r" by blast
  moreover from Cons have "\<exists>r'. imt_intr_contacts K ops hist buf len cs r = Some r'" by simp
  ultimately show ?case using acc by auto
qed

text \<open>What a call with the expected report id returns.\<close>

lemma imt_intr_shape:
  assumes rid: "sc_report_id s = rid"
    and r: "imt_intr K ops s hist buf len rid = Some (s', buf', out)"
  shows "\<exists>sd ps. s' = (imt_todo ops s buf len)\<lparr>sc_slot_data := sd,
             sc_nconts_todo := sc_nconts_todo (imt_todo ops s buf len) - imt_cont_count (imt_todo ops s buf len)\<rparr> \<and>
           buf' = imt_zero_extend s buf len \<and>
           out = ps @ (if sc_nconts_todo s' = 0 then [Sync] else []) \<and> Sync \<notin> set ps"
proof -
  let ?s1 = "imt_todo ops s buf len"
  let ?b1 = "imt_zero_extend s buf len"
  from r rid obtain s2 out2 where
    l: "imt_intr_contacts K ops hist ?b1 len [0 ..< unat (imt_cont_count ?s1)] (?s1, []) = Some (s2, out2)"
    and s': "s' = s2\<lparr>sc_nconts_todo := sc_nconts_todo s2 - imt_cont_count ?s1\<rparr>"
    and b: "buf' = ?b1"
    and out: "out = (if sc_nconts_todo s' = 0 then out2 @ [Sync] else out2)"
    by (auto simp: imt_intr_def Let_def split: option.splits)
  from imt_intr_contacts_shape [OF l] obtain sd ps where
    a: "s2 = ?s1\<lparr>sc_slot_data := sd\<rparr>" "out2 = ps" "Sync \<notin> set ps" by auto
  have "s' = ?s1\<lparr>sc_slot_data := sd, sc_nconts_todo := sc_nconts_todo ?s1 - imt_cont_count ?s1\<rparr>"
    using s' a by simp
  moreover have "out = ps @ (if sc_nconts_todo s' = 0 then [Sync] else [])"
    using out a by simp
  ultimately show ?thesis using b a(3) by blast
qed

lemma imt_intr_defined:
  assumes "unat (sc_nconts_per_report s) \<le> MAX_MT_SLOTS K"
  shows "\<exists>r. imt_intr K ops s hist buf len rid = Some r"
proof (cases "sc_report_id s = rid")
  case False
  then show ?thesis by (simp add: imt_intr_def)
next
  case True
  let ?s1 = "imt_todo ops s buf len"
  have "sc_nconts_per_report ?s1 = sc_nconts_per_report s" by (simp add: imt_todo_def)
  then have "imt_cont_count ?s1 \<le> sc_nconts_per_report s" by (simp add: imt_cont_count_def)
  then have "unat (imt_cont_count ?s1) \<le> MAX_MT_SLOTS K"
    using assms by (simp add: word_le_nat_alt)
  then have "\<forall>c \<in> set [0 ..< unat (imt_cont_count ?s1)]. c < MAX_MT_SLOTS K" by simp
  from imt_intr_contacts_defined [OF this]
  obtain r where "imt_intr_contacts K ops hist (imt_zero_extend s buf len) len
      [0 ..< unat (imt_cont_count ?s1)] (?s1, []) = Some r" by blast
  then show ?thesis by (cases r) (simp add: imt_intr_def Let_def)
qed

text \<open>
  C2, as the specification states it, says that a report that arrives while the counter
  is 0 and carries a zero contact count emits no sync. On such a report the call
  processes no contact, leaves the counter at 0, finds it 0 on line 543 and calls
  \<open>evdev_sync\<close>.
\<close>

theorem imt_intr_idle_zero_count_syncs:
  "sc_nconts_todo touch_softc = 0 \<and>
   imt_count example_ops touch_softc (bytes_buf [0, 0, 0, 0, 0, 0]) 6 = 0 \<and>
   map_option (snd \<circ> snd)
     (imt_intr freebsd_consts example_ops touch_softc [] (bytes_buf [0, 0, 0, 0, 0, 0]) 6 1) = Some [Sync]"
  by code_simp

text \<open>
  C2, amended. For every call with the expected report id (on a softc with no more slots
  per report than \<open>sc->locs\<close> has rows) the call returns, and the terminal sync is
  emitted on that call, once and last, if and only if the remaining-contacts counter is 0
  when the call ends; in particular a report that arrives while the counter is 0 and
  carries a zero contact count leaves the counter at 0 and emits the sync alone.
\<close>

theorem imt_intr_sync_iff:
  assumes rid: "sc_report_id s = rid"
    and per: "unat (sc_nconts_per_report s) \<le> MAX_MT_SLOTS K"
  shows "\<exists>s' buf' out. imt_intr K ops s hist buf len rid = Some (s', buf', out) \<and>
           (sc_nconts_todo s' = 0 \<longrightarrow> (\<exists>ps. out = ps @ [Sync] \<and> Sync \<notin> set ps)) \<and>
           (sc_nconts_todo s' \<noteq> 0 \<longrightarrow> Sync \<notin> set out) \<and>
           (sc_nconts_todo s = 0 \<and> imt_count ops s buf len = 0 \<longrightarrow>
              sc_nconts_todo s' = 0 \<and> out = [Sync])"
proof -
  from imt_intr_defined [OF per] obtain s' buf' out where
    r: "imt_intr K ops s hist buf len rid = Some (s', buf', out)" by (metis prod_cases3)
  from imt_intr_shape [OF rid r] obtain sd ps where
    sh: "out = ps @ (if sc_nconts_todo s' = 0 then [Sync] else [])" "Sync \<notin> set ps" by blast
  have idle: "sc_nconts_todo s' = 0 \<and> out = [Sync]"
    if "sc_nconts_todo s = 0" "imt_count ops s buf len = 0"
  proof -
    from that have t: "imt_todo ops s buf len = s" by (simp add: imt_todo_def)
    from that have c: "imt_cont_count s = 0" by (simp add: imt_cont_count_def)
    show ?thesis using r rid that by (simp add: imt_intr_def t c)
  qed
  show ?thesis using r sh idle by auto
qed

theorem imt_intr_sync_iff_witness:
  "sc_report_id touch_softc = 1 \<and>
   (\<exists>s' buf' ps. imt_intr freebsd_consts example_ops touch_softc []
        (bytes_buf [1, 1, 1, 10, 20, 0]) 6 1 = Some (s', buf', ps @ [Sync]) \<and>
      sc_nconts_todo s' = 0 \<and> Sync \<notin> set ps)"
proof -
  have h1: "sc_report_id touch_softc = 1" by code_simp
  have h2: "unat (sc_nconts_per_report touch_softc) \<le> MAX_MT_SLOTS freebsd_consts" by code_simp
  have t: "map_option (sc_nconts_todo \<circ> fst) (imt_intr freebsd_consts example_ops touch_softc []
        (bytes_buf [1, 1, 1, 10, 20, 0]) 6 1) = Some 0" by code_simp
  from imt_intr_sync_iff [OF h1 h2, of example_ops "[]" "bytes_buf [1, 1, 1, 10, 20, 0]" 6]
  show ?thesis using h1 t by fastforce
qed

lemma imt_count_frame:
  "imt_count ops (s\<lparr>sc_slot_data := sd, sc_nconts_todo := t\<rparr>) buf len = imt_count ops s buf len"
  by (simp add: imt_count_def imt_zero_extend_def)

lemma imt_count_todo: "imt_count ops (imt_todo ops s b l) buf len = imt_count ops s buf len"
  by (simp add: imt_todo_def imt_count_def imt_zero_extend_def)

text \<open>One call of hybrid delivery at one slot per report.\<close>

lemma imt_intr_hybrid_step:
  assumes rid: "sc_report_id s = rid"
    and per: "sc_nconts_per_report s = 1"
    and mx: "0 < MAX_MT_SLOTS K"
    and todo: "sc_nconts_todo (imt_todo ops s buf len) = t + 1" "t + 1 \<noteq> 0"
  shows "\<exists>s' buf' ps. imt_intr K ops s hist buf len rid =
             Some (s', buf', ps @ (if t = 0 then [Sync] else [])) \<and> Sync \<notin> set ps \<and>
           sc_nconts_todo s' = t \<and> sc_report_id s' = rid \<and> sc_nconts_per_report s' = 1 \<and>
           imt_cont_count (imt_todo ops s buf len) = 1 \<and>
           (\<forall>b l. imt_count ops s' b l = imt_count ops s b l)"
proof -
  have "unat (sc_nconts_per_report s) \<le> MAX_MT_SLOTS K" using per mx by simp
  from imt_intr_defined [OF this] obtain s' buf' out where
    r: "imt_intr K ops s hist buf len rid = Some (s', buf', out)" by (metis prod_cases3)
  let ?s1 = "imt_todo ops s buf len"
  have p1: "sc_nconts_per_report ?s1 = 1" using per by (simp add: imt_todo_def)
  have "(1 :: u32) \<le> t + 1" using todo(2) by (simp add: word_le_nat_alt unat_gt_0 Suc_le_eq)
  then have cc: "imt_cont_count ?s1 = 1" using todo(1) p1 by (simp add: imt_cont_count_def min_def)
  from imt_intr_shape [OF rid r] obtain sd ps where
    s': "s' = ?s1\<lparr>sc_slot_data := sd, sc_nconts_todo := sc_nconts_todo ?s1 - imt_cont_count ?s1\<rparr>"
    and out: "out = ps @ (if sc_nconts_todo s' = 0 then [Sync] else [])" and ps: "Sync \<notin> set ps"
    by blast
  have t': "sc_nconts_todo s' = t" using s' cc todo(1) by simp
  have f: "sc_report_id s' = rid" "sc_nconts_per_report s' = 1"
    using s' rid per by (simp_all add: imt_todo_def)
  have c: "\<forall>b l. imt_count ops s' b l = imt_count ops s b l"
    unfolding s' by (simp add: imt_count_frame imt_count_todo)
  show ?thesis using r out ps t' f cc c by auto
qed

text \<open>
  C1. From a counter at 0 and one slot per report, three reports with the expected id
  whose contact counts decode to 3, 0 and 0: every call processes one contact, the first
  two calls emit no sync and leave the counter at 2 and at 1, the zero counts leave the
  counter as it is, and the third call ends with the sync, its only one, and the counter
  at 0.
\<close>

theorem imt_intr_hybrid_3_0_0:
  assumes rid: "sc_report_id s = rid"
    and idle: "sc_nconts_todo s = 0"
    and per: "sc_nconts_per_report s = 1"
    and mx: "0 < MAX_MT_SLOTS K"
    and c1: "imt_count ops s b1 l1 = 3"
    and c2: "imt_count ops s b2 l2 = 0"
    and c3: "imt_count ops s b3 l3 = 0"
  shows "\<exists>s1 s2 s3 b1' b2' b3' o1 o2 o3.
           imt_intr K ops s hist b1 l1 rid = Some (s1, b1', o1) \<and>
           imt_intr K ops s1 (hist @ o1) b2 l2 rid = Some (s2, b2', o2) \<and>
           imt_intr K ops s2 (hist @ o1 @ o2) b3 l3 rid = Some (s3, b3', o3 @ [Sync]) \<and>
           Sync \<notin> set o1 \<and> Sync \<notin> set o2 \<and> Sync \<notin> set o3 \<and>
           imt_cont_count (imt_todo ops s b1 l1) = 1 \<and>
           imt_cont_count (imt_todo ops s1 b2 l2) = 1 \<and>
           imt_cont_count (imt_todo ops s2 b3 l3) = 1 \<and>
           sc_nconts_todo s1 = 2 \<and> imt_todo ops s1 b2 l2 = s1 \<and>
           sc_nconts_todo s2 = 1 \<and> imt_todo ops s2 b3 l3 = s2 \<and>
           sc_nconts_todo s3 = 0"
proof -
  have t1: "sc_nconts_todo (imt_todo ops s b1 l1) = 2 + 1" using c1 by (simp add: imt_todo_def)
  from imt_intr_hybrid_step [OF rid per mx t1, of hist] obtain s1 b1' o1 where
    r1: "imt_intr K ops s hist b1 l1 rid = Some (s1, b1', o1)" "Sync \<notin> set o1"
      "sc_nconts_todo s1 = 2" "sc_report_id s1 = rid" "sc_nconts_per_report s1 = 1"
      "imt_cont_count (imt_todo ops s b1 l1) = 1"
      "\<forall>b l. imt_count ops s1 b l = imt_count ops s b l" by auto
  have e2: "imt_todo ops s1 b2 l2 = s1" using r1(7) c2 by (simp add: imt_todo_def)
  then have t2: "sc_nconts_todo (imt_todo ops s1 b2 l2) = 1 + 1" using r1(3) by simp
  from imt_intr_hybrid_step [OF r1(4) r1(5) mx t2, of "hist @ o1"] obtain s2 b2' o2 where
    r2: "imt_intr K ops s1 (hist @ o1) b2 l2 rid = Some (s2, b2', o2)" "Sync \<notin> set o2"
      "sc_nconts_todo s2 = 1" "sc_report_id s2 = rid" "sc_nconts_per_report s2 = 1"
      "imt_cont_count (imt_todo ops s1 b2 l2) = 1"
      "\<forall>b l. imt_count ops s2 b l = imt_count ops s1 b l" by auto
  have e3: "imt_todo ops s2 b3 l3 = s2" using r2(7) r1(7) c3 by (simp add: imt_todo_def)
  then have t3: "sc_nconts_todo (imt_todo ops s2 b3 l3) = 0 + 1" using r2(3) by simp
  from imt_intr_hybrid_step [OF r2(4) r2(5) mx t3, of "hist @ o1 @ o2"] obtain s3 b3' o3 where
    r3: "imt_intr K ops s2 (hist @ o1 @ o2) b3 l3 rid = Some (s3, b3', o3 @ [Sync])" "Sync \<notin> set o3"
      "sc_nconts_todo s3 = 0" 
      "imt_cont_count (imt_todo ops s2 b3 l3) = 1" by auto
  show ?thesis using r1(1,2,3,6) r2(1,2,3,6) r3 e2 e3 by blast
qed

theorem imt_intr_hybrid_3_0_0_witness:
  "imt_count example_ops touch_softc (bytes_buf [3, 1, 1, 10, 20, 0]) 6 = 3 \<and>
   imt_count example_ops touch_softc (bytes_buf [0, 1, 1, 11, 21, 1]) 6 = 0 \<and>
   imt_count example_ops touch_softc (bytes_buf [0, 1, 1, 12, 22, 2]) 6 = 0 \<and>
   (\<exists>s1 s2 s3 b1' b2' b3' o1 o2 o3.
      imt_intr freebsd_consts example_ops touch_softc [] (bytes_buf [3, 1, 1, 10, 20, 0]) 6 1 =
        Some (s1, b1', o1) \<and>
      imt_intr freebsd_consts example_ops s1 o1 (bytes_buf [0, 1, 1, 11, 21, 1]) 6 1 =
        Some (s2, b2', o2) \<and>
      imt_intr freebsd_consts example_ops s2 (o1 @ o2) (bytes_buf [0, 1, 1, 12, 22, 2]) 6 1 =
        Some (s3, b3', o3 @ [Sync]) \<and>
      Sync \<notin> set o1 \<and> Sync \<notin> set o2 \<and> Sync \<notin> set o3 \<and>
      sc_nconts_todo s1 = 2 \<and> sc_nconts_todo s2 = 1 \<and> sc_nconts_todo s3 = 0)"
proof -
  have h: "sc_report_id touch_softc = 1" "sc_nconts_todo touch_softc = 0"
    "sc_nconts_per_report touch_softc = 1" "0 < MAX_MT_SLOTS freebsd_consts"
    by code_simp+
  have c: "imt_count example_ops touch_softc (bytes_buf [3, 1, 1, 10, 20, 0]) 6 = 3"
    "imt_count example_ops touch_softc (bytes_buf [0, 1, 1, 11, 21, 1]) 6 = 0"
    "imt_count example_ops touch_softc (bytes_buf [0, 1, 1, 12, 22, 2]) 6 = 0"
    by code_simp+
  from imt_intr_hybrid_3_0_0 [OF h c, of "[]"] show ?thesis using c by fastforce
qed

lemma fold_upd_apply:
  "distinct us \<Longrightarrow>
   fold (\<lambda>u sd. if P u then sd(u := g u) else sd) us sd0 u =
     (if u \<in> set us \<and> P u then g u else sd0 u)"
  by (induction us arbitrary: sd0) auto

lemma read_slot_data_apply:
  "read_slot_data ops s buf len c u =
     (if u < WMT_N_USAGES \<and> USAGE_SUPPORTED (sc_caps s) u \<and> loc_size (sc_locs s c u) \<noteq> 0
      then hid_get_data_unsigned ops buf len (sc_locs s c u) else 0)"
  unfolding read_slot_data_def
  using fold_upd_apply [of "[0 ..< WMT_N_USAGES]"
      "\<lambda>u. USAGE_SUPPORTED (sc_caps s) u \<and> loc_size (sc_locs s c u) \<noteq> 0"
      "\<lambda>u. hid_get_data_unsigned ops buf len (sc_locs s c u)" "\<lambda>u. 0" u]
  by auto

text \<open>
  C8, as the specification states it, says that two consecutive active reports for the
  same contact emit alternating in-range values. The same report delivered twice, with
  the tip switch and the in-range flag at 1, emits the same events twice: the in-range
  value is 0 both times.
\<close>

theorem imt_intr_in_range_constant:
  "map_option snd (imt_intr_reports freebsd_consts example_ops touch_softc []
     [(bytes_buf [1, 1, 1, 10, 20, 0], 6, 1), (bytes_buf [1, 1, 1, 10, 20, 0], 6, 1)]) =
     Some [[Push_abs 47 0, Push_abs 53 10, Push_abs 54 20, Push_abs 57 0, Push_abs 59 0, Sync],
           [Push_abs 47 0, Push_abs 53 10, Push_abs 54 20, Push_abs 57 0, Push_abs 59 0, Sync]] \<and>
   map_option (map (in_range_values freebsd_consts) \<circ> snd)
     (imt_intr_reports freebsd_consts example_ops touch_softc []
       [(bytes_buf [1, 1, 1, 10, 20, 0], 6, 1), (bytes_buf [1, 1, 1, 10, 20, 0], 6, 1)]) =
     Some [[0], [0]]"
  by code_simp

text \<open>
  C8, amended. For an active contact (the slot allocator gives a slot, the tip switch
  is not 0 and the confidence, when supported, is not 0) the iteration sends one event
  per supported usage with a code, carrying the scratch values, and the in-range scratch
  value is the logical negation of the in-range field decoded from this report: 0 when
  the field is supported, located and not 0, and 1 otherwise. It does not depend on the
  scratch values the call before left in the softc.
\<close>

theorem imt_intr_in_range_level:
  assumes row: "c < MAX_MT_SLOTS K"
    and slot: "evdev_get_mt_slot_by_tracking_id ops (hist @ out)
                 (read_slot_data ops s buf len c WMT_CONTACTID) \<noteq> - 1"
    and tip: "read_slot_data ops s buf len c WMT_TIP_SWITCH \<noteq> 0"
    and conf: "USAGE_SUPPORTED (sc_caps s) WMT_CONFIDENCE \<longrightarrow>
                 read_slot_data ops s buf len c WMT_CONFIDENCE \<noteq> 0"
  shows "\<exists>sd. imt_intr_contact K ops hist buf len c (s, out) =
             Some (s\<lparr>sc_slot_data := sd\<rparr>, out @ push_usages K (sc_caps s) sd) \<and>
           sd WMT_IN_RANGE =
             (if USAGE_SUPPORTED (sc_caps s) WMT_IN_RANGE \<and> loc_size (sc_locs s c WMT_IN_RANGE) \<noteq> 0 \<and>
                 hid_get_data_unsigned ops buf len (sc_locs s c WMT_IN_RANGE) \<noteq> 0
              then 0 else 1) \<and>
           imt_intr_contact K ops hist buf len c (s\<lparr>sc_slot_data := prev\<rparr>, out) =
             imt_intr_contact K ops hist buf len c (s, out)"
proof -
  have a: "read_slot_data ops (s\<lparr>sc_slot_data := prev\<rparr>) buf len c = read_slot_data ops s buf len c"
    by (rule ext) (simp add: read_slot_data_apply)
  have b: "imt_intr_contact K ops hist buf len c (s\<lparr>sc_slot_data := prev\<rparr>, out) =
             imt_intr_contact K ops hist buf len c (s, out)"
    by (simp add: imt_intr_contact_def a Let_def)
  have r: "read_slot_data ops s buf len c WMT_IN_RANGE =
     (if USAGE_SUPPORTED (sc_caps s) WMT_IN_RANGE \<and> loc_size (sc_locs s c WMT_IN_RANGE) \<noteq> 0
      then hid_get_data_unsigned ops buf len (sc_locs s c WMT_IN_RANGE) else 0)"
    by (simp add: read_slot_data_apply)
  show ?thesis
    using row slot tip conf b
    by (auto simp: imt_intr_contact_def Let_def r)
qed

theorem imt_intr_in_range_level_witness:
  "read_slot_data example_ops touch_softc (bytes_buf [1, 1, 1, 10, 20, 0]) 6 0 WMT_TIP_SWITCH = 1 \<and>
   (\<exists>sd. imt_intr_contact freebsd_consts example_ops [] (bytes_buf [1, 1, 1, 10, 20, 0]) 6 0
            (touch_softc, []) =
          Some (touch_softc\<lparr>sc_slot_data := sd\<rparr>, push_usages freebsd_consts (sc_caps touch_softc) sd) \<and>
      sd WMT_IN_RANGE = 0)"
proof -
  have h: "0 < MAX_MT_SLOTS freebsd_consts"
    "evdev_get_mt_slot_by_tracking_id example_ops ([] @ [])
       (read_slot_data example_ops touch_softc (bytes_buf [1, 1, 1, 10, 20, 0]) 6 0 WMT_CONTACTID) \<noteq> - 1"
    "read_slot_data example_ops touch_softc (bytes_buf [1, 1, 1, 10, 20, 0]) 6 0 WMT_TIP_SWITCH \<noteq> 0"
    "USAGE_SUPPORTED (sc_caps touch_softc) WMT_CONFIDENCE \<longrightarrow>
       read_slot_data example_ops touch_softc (bytes_buf [1, 1, 1, 10, 20, 0]) 6 0 WMT_CONFIDENCE \<noteq> 0"
    by code_simp+
  have t: "read_slot_data example_ops touch_softc (bytes_buf [1, 1, 1, 10, 20, 0]) 6 0 WMT_TIP_SWITCH = 1"
    by code_simp
  have r: "USAGE_SUPPORTED (sc_caps touch_softc) WMT_IN_RANGE \<and>
      loc_size (sc_locs touch_softc 0 WMT_IN_RANGE) \<noteq> 0 \<and>
      hid_get_data_unsigned example_ops (bytes_buf [1, 1, 1, 10, 20, 0]) 6
        (sc_locs touch_softc 0 WMT_IN_RANGE) \<noteq> 0"
    by code_simp
  from imt_intr_in_range_level [OF h] show ?thesis using t r by auto
qed

section \<open>Feature refinement\<close>

text \<open>
  C7. With a slot capacity \<open>MAX_MT_SLOTS\<close> that is a positive \<open>int\<close>: a decoded
  contact count maximum of 0 leaves the softc unchanged; a decoded value that is not 0
  sets the maximum of the slot axis to the value, clamped to \<open>MAX_MT_SLOTS\<close>, minus 1;
  when the clamped value differs from the maximum in place plus 1, that member is the
  only one that changes.
\<close>

theorem wmt_cont_max_parse_slot_max:
  assumes "0 < MAX_MT_SLOTS K" "MAX_MT_SLOTS K < 2 ^ 31"
  shows "let v = hid_get_data_unsigned ops r (ucast n) (sc_cont_max_loc s);
           c = (if unat v > MAX_MT_SLOTS K then of_nat (MAX_MT_SLOTS K) else v);
           s' = wmt_cont_max_parse K ops s r n
       in (v = 0 \<longrightarrow> s' = s) \<and>
          (v \<noteq> 0 \<longrightarrow> ai_max (sc_ai s' WMT_SLOT) = c - 1) \<and>
          (c \<noteq> ai_max (sc_ai s WMT_SLOT) + 1 \<and> v \<noteq> 0 \<longrightarrow> s' = s\<lparr>sc_ai := (sc_ai s)(WMT_SLOT := (sc_ai s WMT_SLOT)\<lparr>ai_max := c - 1\<rparr>)\<rparr>)"
proof -
  have m: "unat (of_nat (MAX_MT_SLOTS K) :: u32) = MAX_MT_SLOTS K"
    using assms(2) by (simp add: unat_of_nat)
  have gt: "\<And>v :: u32. (v > of_nat (MAX_MT_SLOTS K)) = (unat v > MAX_MT_SLOTS K)"
    by (simp add: word_less_nat_alt m)
  have nz: "(of_nat (MAX_MT_SLOTS K) :: u32) \<noteq> 0"
    using m assms(1) by (metis less_numeral_extra(3) unat_0)
  show ?thesis
    using nz by (auto simp: wmt_cont_max_parse_def Let_def gt word_greater_zero_iff)
qed

theorem wmt_cont_max_parse_slot_max_witness:
  "hid_get_data_unsigned example_ops (bytes_buf [200]) (ucast (1 :: 16 word))
     (sc_cont_max_loc (zero_softc\<lparr>sc_cont_max_loc := loc8 0\<rparr>)) = 200 \<and>
   ai_max (sc_ai (wmt_cont_max_parse freebsd_consts example_ops
     (zero_softc\<lparr>sc_cont_max_loc := loc8 0\<rparr>) (bytes_buf [200]) 1) WMT_SLOT) = 15"
proof -
  have h: "0 < MAX_MT_SLOTS freebsd_consts" "MAX_MT_SLOTS freebsd_consts < 2 ^ 31"
    by (simp_all add: freebsd_consts_def)
  have v: "hid_get_data_unsigned example_ops (bytes_buf [200]) (ucast (1 :: 16 word))
     (sc_cont_max_loc (zero_softc\<lparr>sc_cont_max_loc := loc8 0\<rparr>)) = 200" by code_simp
  have m: "MAX_MT_SLOTS freebsd_consts = 16" by (simp add: freebsd_consts_def)
  from wmt_cont_max_parse_slot_max [OF h, of example_ops "bytes_buf [200]" 1 "zero_softc\<lparr>sc_cont_max_loc := loc8 0\<rparr>"]
  show ?thesis unfolding v m Let_def by simp
qed

section \<open>The mode selector\<close>

text \<open>
  C10. No length satisfies the guard of \<open>imt_set_input_mode\<close>, so for every softc and
  mode, the lengths above \<open>WMT_BSIZE\<close> included, the function is the read-modify-write
  sequence and returns the error number of \<open>iichid_set_report\<close> on a report of that
  length: it returns \<open>EINVAL\<close> only if that write does.
\<close>

theorem imt_set_input_mode_no_guard:
  "\<not> (sc_input_mode_rlen s = 0 \<and> sc_input_mode_rlen s > WMT_BSIZE) \<and>
   imt_set_input_mode K ops s mode = input_mode_rmw ops s mode \<and>
   (\<exists>b. input_mode_rmw ops s mode =
      (iichid_set_report ops b (sc_input_mode_rlen s) (sc_input_mode_rid s), s\<lparr>sc_buf := b\<rparr>)) \<and>
   ((\<forall>b l r. iichid_set_report ops b l r \<noteq> EINVAL K) \<longrightarrow>
      fst (imt_set_input_mode K ops s mode) \<noteq> EINVAL K)"
proof -
  have g: "\<not> (sc_input_mode_rlen s = 0 \<and> sc_input_mode_rlen s > WMT_BSIZE)" by auto
  then have e: "imt_set_input_mode K ops s mode = input_mode_rmw ops s mode"
    unfolding imt_set_input_mode_def by (simp only: if_False)
  have r: "\<exists>b. input_mode_rmw ops s mode =
      (iichid_set_report ops b (sc_input_mode_rlen s) (sc_input_mode_rid s), s\<lparr>sc_buf := b\<rparr>)"
    by (auto simp: input_mode_rmw_def Let_def split: prod.splits)
  from g e r show ?thesis by (metis fst_conv)
qed

theorem imt_set_input_mode_no_guard_witness:
  "sc_input_mode_rlen (zero_softc\<lparr>sc_input_mode_rlen := 2000\<rparr>) > WMT_BSIZE \<and>
   fst (imt_set_input_mode freebsd_consts example_ops (zero_softc\<lparr>sc_input_mode_rlen := 2000\<rparr>)
          IMT_INPUT_MODE_MT_TOUCHPAD) \<noteq> EINVAL freebsd_consts"
proof -
  have h: "\<forall>b l r. iichid_set_report example_ops b l r \<noteq> EINVAL freebsd_consts"
    by (simp add: example_ops_def freebsd_consts_def)
  have g: "sc_input_mode_rlen (zero_softc\<lparr>sc_input_mode_rlen := 2000\<rparr>) > WMT_BSIZE" by simp
  from imt_set_input_mode_no_guard [of "zero_softc\<lparr>sc_input_mode_rlen := 2000\<rparr>" freebsd_consts example_ops]
    h g show ?thesis by blast
qed

section \<open>The feature walk\<close>

lemma feature_item_conf_coll: "conf_coll st \<Longrightarrow> conf_coll (feature_item K hi st)"
  by (cases "kind hi") (simp_all add: feature_item_def Let_def)

text \<open>
  C5. A collection of the configuration usage that opens at depth 1 and closes at depth
  0: after the closing item the flag \<open>conf_coll\<close> is still set. The test that would
  clear it stands after the \<open>break\<close> of line 630.
\<close>

theorem feature_walk_keeps_conf_coll:
  "conf_coll (parse_features freebsd_consts None
     (\<lambda>k. [coll_item hid_collection 1 0x000d000e, coll_item hid_endcollection 0 0x000d000e])) = True"
  by (simp add: parse_features_def feature_item_def coll_item_def wmt_locals_init_def
      usage_is_def freebsd_consts_def)

section \<open>The descriptor analyser\<close>

lemma USAGE_SUPPORTED_bit: "USAGE_SUPPORTED c u \<longleftrightarrow> bit c u"
  by (simp add: USAGE_SUPPORTED_def and_exp_eq_0_iff_not_bit)

lemma USAGE_SUPPORTED_or: "u < 32 \<Longrightarrow> USAGE_SUPPORTED (c OR push_bit u 1) i \<longleftrightarrow> USAGE_SUPPORTED c i \<or> i = u"
  by (auto simp: USAGE_SUPPORTED_bit bit_or_iff bit_exp_iff)

lemma USAGE_SUPPORTED_or_exp: "u < 32 \<Longrightarrow> USAGE_SUPPORTED (c OR 2 ^ u) i \<longleftrightarrow> USAGE_SUPPORTED c i \<or> i = u"
  by (auto simp: USAGE_SUPPORTED_bit bit_or_iff bit_exp_iff)

lemma USAGE_SUPPORTED_0: "\<not> USAGE_SUPPORTED 0 u"
  by (simp add: USAGE_SUPPORTED_bit)

lemma map_usages_other:
  assumes "usage hi \<noteq> mi_usage (wmt_hid_map K ! i)" "\<forall>j \<in> set js. j < 32"
  shows "USAGE_SUPPORTED (caps (map_usages K ops hi js st)) i = USAGE_SUPPORTED (caps st) i"
  using assms
proof (induction js arbitrary: st)
  case Nil
  then show ?case by simp
next
  case (Cons j js)
  then have j: "j < 32" and IH: "\<And>st. USAGE_SUPPORTED (caps (map_usages K ops hi js st)) i = USAGE_SUPPORTED (caps st) i"
    by simp_all
  show ?case
  proof (cases "usage hi = mi_usage (wmt_hid_map K ! j)")
    case False
    then show ?thesis using IH by simp
  next
    case True
    with Cons.prems(1) have ne: "i \<noteq> j" by auto
    show ?thesis
    proof (cases "sc st")
      case None
      then show ?thesis using True IH ne j by (simp add: USAGE_SUPPORTED_or_exp)
    next
      case (Some s)
      then show ?thesis using True IH ne j by (simp add: Let_def USAGE_SUPPORTED_or_exp)
    qed
  qed
qed

lemma map_usages_cont [simp]: "cont (map_usages K ops hi js st) = cont st"
  by (induction js arbitrary: st) (simp_all add: Let_def split: option.splits)

lemma map_usages_type [simp]: "type (map_usages K ops hi js st) = type st"
  by (induction js arbitrary: st) (simp_all add: Let_def split: option.splits)

lemma map_usages_report_id [simp]: "report_id (map_usages K ops hi js st) = report_id st"
  by (induction js arbitrary: st) (simp_all add: Let_def split: option.splits)

lemma map_usages_touch_coll [simp]: "touch_coll (map_usages K ops hi js st) = touch_coll st"
  by (induction js arbitrary: st) (simp_all add: Let_def split: option.splits)

lemma map_usages_finger_coll [simp]: "finger_coll (map_usages K ops hi js st) = finger_coll st"
  by (induction js arbitrary: st) (simp_all add: Let_def split: option.splits)

lemma map_usages_cont_count_found [simp]:
  "cont_count_found (map_usages K ops hi js st) = cont_count_found st"
  by (induction js arbitrary: st) (simp_all add: Let_def split: option.splits)

lemma map_usages_scan_time_found [simp]:
  "scan_time_found (map_usages K ops hi js st) = scan_time_found st"
  by (induction js arbitrary: st) (simp_all add: Let_def split: option.splits)

lemma map_usages_cont_count_max [simp]:
  "cont_count_max (map_usages K ops hi js st) = cont_count_max st"
  by (induction js arbitrary: st) (simp_all add: Let_def split: option.splits)

lemma map_usages_rids [simp]:
  "cont_max_rid (map_usages K ops hi js st) = cont_max_rid st"
  "thqa_cert_rid (map_usages K ops hi js st) = thqa_cert_rid st"
  "input_mode_rid (map_usages K ops hi js st) = input_mode_rid st"
  by (induction js arbitrary: st) (simp_all add: Let_def split: option.splits)

lemma published_opt_map:
  "(\<And>s. wmt_published (f s) = wmt_published s) \<Longrightarrow> published_opt (map_option f x) = published_opt x"
  by (cases x) (simp_all add: published_opt_def)

lemma published_opt_loc [simp]:
  "published_opt (map_option (\<lambda>s. s\<lparr>sc_cont_max_loc := l\<rparr>) x) = published_opt x"
  "published_opt (map_option (\<lambda>s. s\<lparr>sc_input_mode_loc := l\<rparr>) x) = published_opt x"
  "published_opt (map_option (\<lambda>s. s\<lparr>sc_cont_count_loc := l\<rparr>) x) = published_opt x"
  by (rule published_opt_map, simp add: wmt_published_def)+

lemma map_usages_published [simp]:
  "published_opt (sc (map_usages K ops hi js st)) = published_opt (sc st)"
proof (induction js arbitrary: st)
  case Nil
  then show ?case by simp
next
  case (Cons j js)
  show ?case
  proof (cases "usage hi = mi_usage (wmt_hid_map K ! j)")
    case False
    then show ?thesis using Cons.IH by simp
  next
    case match: True
    show ?thesis
    proof (cases "sc st")
      case None
      then show ?thesis using match Cons.IH [of st] by simp
    next
      case (Some s)
      show ?thesis
      proof (cases "loc_size (sc_locs s (cont st) j) = 0")
        case False
        then have "map_usages K ops hi (j # js) st = map_usages K ops hi js st"
          using match Some by simp
        then show ?thesis using Cons.IH by (simp only:)
      next
        case True
        then show ?thesis using match Some
          by (simp add: Let_def published_opt_def wmt_published_def)
      qed
    qed
  qed
qed

lemma feature_item_published [simp]:
  "published_opt (sc (feature_item K hi st)) = published_opt (sc st)"
  by (cases "kind hi") (simp_all add: feature_item_def Let_def)

lemma input_item_published [simp]:
  "published_opt (sc (input_item K ops hi st)) = published_opt (sc st)"
  by (cases "kind hi") (simp_all add: input_item_def Let_def)

lemma fold_feature_item_published:
  "published_opt (sc (fold (feature_item K) hs st)) = published_opt (sc st)"
  by (induction hs arbitrary: st) simp_all

lemma fold_input_item_published:
  "published_opt (sc (fold (input_item K ops) hs st)) = published_opt (sc st)"
  by (induction hs arbitrary: st) simp_all

lemma parse_features_published:
  "published_opt (sc (parse_features K s d)) = published_opt s"
  by (simp add: parse_features_def fold_feature_item_published wmt_locals_init_def)

lemma parse_inputs_published:
  "published_opt (sc (parse_inputs K ops s d)) = published_opt s"
  using parse_features_published [of K s d]
  by (simp add: parse_inputs_def fold_input_item_published)

lemma feature_item_caps [simp]:
  "caps (feature_item K hi st) = caps st" "finger_coll (feature_item K hi st) = finger_coll st"
  by (cases "kind hi"; simp add: feature_item_def Let_def)+

lemma fold_feature_item_caps:
  "caps (fold (feature_item K) hs st) = caps st \<and>
   finger_coll (fold (feature_item K) hs st) = finger_coll st"
  by (induction hs arbitrary: st) simp_all

lemma parse_features_caps:
  "caps (parse_features K s d) = 0" "\<not> finger_coll (parse_features K s d)"
  by (simp_all add: parse_features_def fold_feature_item_caps wmt_locals_init_def)

lemma finger_fields_Cons:
  "finger_fields K f (h # hs) =
     (if kind h = hid_input \<and> f then [h] else []) @ finger_fields K (finger_flag K f h) hs"
  by (cases "kind h") (simp_all add: finger_flag_def)

lemma input_item_finger_flag:
  assumes "finger_coll st \<longrightarrow> f"
  shows "finger_coll (input_item K ops h st) \<longrightarrow> finger_flag K f h"
  using assms
  by (cases "kind h") (auto simp: input_item_def finger_flag_def Let_def)

lemma input_item_caps:
  assumes "finger_coll st \<longrightarrow> f"
    and "\<not> (kind h = hid_input \<and> f \<and> usage h = mi_usage (wmt_hid_map K ! i))"
  shows "USAGE_SUPPORTED (caps (input_item K ops h st)) i = USAGE_SUPPORTED (caps st) i"
proof (cases "kind h")
  case hid_input
  show ?thesis
  proof (cases "finger_coll st")
    case False
    then show ?thesis using hid_input by (simp add: input_item_def Let_def)
  next
    case True
    with assms hid_input have "usage h \<noteq> mi_usage (wmt_hid_map K ! i)" by simp
    from map_usages_other [OF this, of "[0 ..< WMT_N_USAGES]"]
    have "\<And>st. USAGE_SUPPORTED (caps (map_usages K ops h [0 ..< WMT_N_USAGES] st)) i =
       USAGE_SUPPORTED (caps st) i" by simp
    then show ?thesis using hid_input by (simp add: input_item_def Let_def)
  qed
qed (simp_all add: input_item_def Let_def)

lemma fold_input_item_caps:
  assumes "finger_coll st \<longrightarrow> f"
    and "\<forall>h \<in> set (finger_fields K f hs). usage h \<noteq> mi_usage (wmt_hid_map K ! i)"
  shows "USAGE_SUPPORTED (caps (fold (input_item K ops) hs st)) i = USAGE_SUPPORTED (caps st) i"
  using assms
proof (induction hs arbitrary: st f)
  case Nil
  then show ?case by simp
next
  case (Cons h hs)
  from Cons.prems(2) have now: "\<not> (kind h = hid_input \<and> f \<and> usage h = mi_usage (wmt_hid_map K ! i))"
    and later: "\<forall>h' \<in> set (finger_fields K (finger_flag K f h) hs). usage h' \<noteq> mi_usage (wmt_hid_map K ! i)"
    unfolding finger_fields_Cons by auto
  have "USAGE_SUPPORTED (caps (fold (input_item K ops) hs (input_item K ops h st))) i =
      USAGE_SUPPORTED (caps (input_item K ops h st)) i"
    by (rule Cons.IH [OF input_item_finger_flag [OF Cons.prems(1)] later])
  then show ?case using input_item_caps [OF Cons.prems(1) now] by simp
qed

lemma parse_inputs_missing:
  assumes "\<forall>h \<in> set (finger_fields K False (d hid_input)). usage h \<noteq> mi_usage (wmt_hid_map K ! i)"
  shows "\<not> USAGE_SUPPORTED (caps (parse_inputs K ops s d)) i"
proof -
  let ?st = "(parse_features K s d)\<lparr>touch_coll := False\<rparr>"
  have "finger_coll ?st \<longrightarrow> False" by (simp add: parse_features_caps)
  from fold_input_item_caps [OF this assms]
  show ?thesis by (simp add: parse_inputs_def parse_features_caps USAGE_SUPPORTED_0)
qed

lemma wmt_hid_parse_rejected:
  assumes "wmt_rejected K ops s d"
  shows "fst (wmt_hid_parse K ops s d) = 0 \<and>
         map_option wmt_published (snd (wmt_hid_parse K ops s d)) = map_option wmt_published s"
proof -
  have "wmt_hid_parse K ops s d = (0, sc (parse_features K s d)) \<or>
        wmt_hid_parse K ops s d = (0, sc (parse_inputs K ops s d))"
    using assms by (auto simp: wmt_hid_parse_def wmt_rejected_def Let_def)
  then show ?thesis
    using parse_features_published [of K s d] parse_inputs_published [of K ops s d]
    unfolding published_opt_def by auto
qed

lemma required_missingI:
  "i < WMT_N_USAGES \<Longrightarrow> mi_required (wmt_hid_map K ! i) \<Longrightarrow> \<not> USAGE_SUPPORTED cps i \<Longrightarrow>
   required_missing K cps"
  unfolding required_missing_def list_ex_iff by (intro bexI [of _ i]) simp_all

text \<open>
  C4. For every descriptor and every required usage of the table: when no input item
  inside a finger sub-collection carries the usage, \<open>wmt_hid_parse\<close> returns 0, with a
  softc or without, and the members of the softc that are assigned after the checks
  (the report id, the capabilities, the report sizes, the slots per report and the
  feature report ids) are what they were; only the locations and axis infos that the
  walk over the items writes can differ.
\<close>

theorem wmt_hid_parse_required_missing:
  assumes "i < WMT_N_USAGES" "mi_required (wmt_hid_map K ! i)"
    and "\<forall>h \<in> set (finger_fields K False (d hid_input)). usage h \<noteq> mi_usage (wmt_hid_map K ! i)"
  shows "fst (wmt_hid_parse K ops s d) = 0 \<and>
         map_option wmt_published (snd (wmt_hid_parse K ops s d)) = map_option wmt_published s"
proof -
  have "required_missing K (caps (parse_inputs K ops s d))"
    using assms(1,2) parse_inputs_missing [where d = d and K = K and i = i, OF assms(3)]
    by (rule required_missingI)
  then have "wmt_rejected K ops s d" by (simp add: wmt_rejected_def)
  then show ?thesis by (rule wmt_hid_parse_rejected)
qed

theorem wmt_hid_parse_required_missing_witness:
  "WMT_Y < WMT_N_USAGES \<and> mi_required (wmt_hid_map freebsd_consts ! WMT_Y) \<and>
   fst (wmt_hid_parse freebsd_consts example_ops (Some zero_softc) touchscreen_desc_no_y) = 0 \<and>
   map_option wmt_published
     (snd (wmt_hid_parse freebsd_consts example_ops (Some zero_softc) touchscreen_desc_no_y)) =
   Some (wmt_published zero_softc)"
proof -
  have h: "WMT_Y < WMT_N_USAGES" "mi_required (wmt_hid_map freebsd_consts ! WMT_Y)"
    by (simp_all add: wmt_hid_map_def)
  have m: "\<forall>h \<in> set (finger_fields freebsd_consts False (touchscreen_desc_no_y hid_input)).
      usage h \<noteq> mi_usage (wmt_hid_map freebsd_consts ! WMT_Y)"
    by code_simp
  from wmt_hid_parse_required_missing [OF h, where d = touchscreen_desc_no_y, OF m]
  show ?thesis using h by simp
qed

lemma sint_32: "sint (w :: 32 word) = (uint w + 2 ^ 31) mod 2 ^ 32 - 2 ^ 31"
  by (simp add: sint_uint signed_take_bit_eq_take_bit_shift take_bit_eq_mod)

lemma sint_pos_unat:
  assumes "1 \<le> sint (w :: 32 word)"
  shows "sint w = int (unat w) \<and> 1 \<le> unat w \<and> unat w < 2 ^ 31"
proof -
  have u: "0 \<le> uint w" "uint w < 2 ^ 32" using uint_lt2p [of w] by simp_all
  have "uint w < 2 ^ 31"
  proof (rule ccontr)
    assume "\<not> uint w < 2 ^ 31"
    then have "(uint w + 2 ^ 31) mod 2 ^ 32 = uint w - 2 ^ 31" using u
      by (simp add: mod_pos_geq)
    then have "sint w < 0" using u by (simp add: sint_32)
    with assms show False by simp
  qed
  then have s: "sint w = uint w" using u by (simp add: sint_32)
  have un: "uint w = int (unat w)" by (rule uint_nat)
  have a: "1 \<le> uint w" using assms s by simp
  have b: "uint w < 2147483648" using \<open>uint w < 2 ^ 31\<close> by simp
  have c1: "1 \<le> unat w" using a un by linarith
  have "unat w < 2147483648" using b un by linarith
  then have c2: "unat w < 2 ^ 31" by simp
  have c3: "sint w = int (unat w)" using s un by (simp only:)
  from c3 c1 c2 show ?thesis by blast
qed

lemma sint_minus_1:
  assumes "1 \<le> sint (w :: 32 word)"
  shows "sint (w - 1) = sint w - 1"
proof -
  from sint_pos_unat [OF assms] have w: "sint w = int (unat w)" "1 \<le> unat w" "unat w < 2 ^ 31"
    by simp_all
  have "(1 :: 32 word) \<le> w" using w(2) by (simp add: word_le_nat_alt)
  then have "unat (w - 1) = unat w - 1" by (simp add: unat_sub)
  then have "unat (w - 1) < 2 ^ 31" using w(3) by simp
  from sint_small [OF this] show ?thesis using \<open>unat (w - 1) = unat w - 1\<close> w by simp
qed

lemma sint_of_nat_32: "n < 2 ^ 31 \<Longrightarrow> sint (of_nat n :: 32 word) = int n"
proof -
  assume n: "n < 2 ^ 31"
  then have "unat (of_nat n :: 32 word) = n" by (simp add: unat_of_nat)
  then show ?thesis using sint_small [of "of_nat n"] n by simp
qed

lemma input_item_cont_count_max [simp]:
  "cont_count_max (input_item K ops hi st) = cont_count_max st"
  by (cases "kind hi") (simp_all add: input_item_def Let_def)

lemma fold_input_item_cont_count_max:
  "cont_count_max (fold (input_item K ops) hs st) = cont_count_max st"
  by (induction hs arbitrary: st) simp_all

lemma parse_inputs_cont_count_max:
  "cont_count_max (parse_inputs K ops s d) = cont_count_max (parse_features K s d)"
  by (simp add: parse_inputs_def fold_input_item_cont_count_max)

lemma parse_inputs_sc_Some: "\<exists>s2. sc (parse_inputs K ops (Some s) d) = Some s2"
  using parse_inputs_published [of K ops "Some s" d] by (auto simp: published_opt_def)

lemma wmt_hid_parse_accepted:
  assumes "\<not> wmt_rejected K ops (Some s) d"
  shows "\<exists>s2. sc (parse_inputs K ops (Some s) d) = Some s2 \<and>
    wmt_hid_parse K ops (Some s) d =
      (type (parse_inputs K ops (Some s) d),
       Some (wmt_publish K d (parse_inputs K ops (Some s) d) s2))"
proof -
  from parse_inputs_sc_Some obtain s2 where s2: "sc (parse_inputs K ops (Some s) d) = Some s2"
    by blast
  then show ?thesis using assms by (simp add: wmt_hid_parse_def wmt_rejected_def Let_def)
qed

lemma wmt_publish_slot:
  "sc_ai (wmt_publish K d st s) WMT_SLOT =
     \<lparr>ai_min = 0,
      ai_max = (let ccm1 = (if sint (cont_count_max st) < 1 then of_nat (cont st) else cont_count_max st)
                in if sint ccm1 > int (MAX_MT_SLOTS K) then of_nat (MAX_MT_SLOTS K) else ccm1) - 1,
      ai_res = 0\<rparr>"
  by (simp add: wmt_publish_def Let_def)

text \<open>
  C6. For every descriptor that passes the checks, with a slot capacity
  \<open>MAX_MT_SLOTS\<close> that is a positive \<open>int\<close>: the slot axis has the minimum 0, and its
  maximum is N - 1 when the declared contact count maximum N is between 1 and
  \<open>MAX_MT_SLOTS\<close>; a declared maximum below 1 is replaced by the number of finger
  collections, and a value above \<open>MAX_MT_SLOTS\<close> by \<open>MAX_MT_SLOTS\<close>, before the
  subtraction.
\<close>

theorem wmt_hid_parse_slot_axis:
  assumes acc: "\<not> wmt_rejected K ops (Some s) d"
    and mx: "0 < MAX_MT_SLOTS K" "MAX_MT_SLOTS K < 2 ^ 31"
    and fingers: "cont (parse_inputs K ops (Some s) d) < 2 ^ 31"
  shows "\<exists>s'. wmt_hid_parse K ops (Some s) d = (type (parse_inputs K ops (Some s) d), Some s') \<and>
      ai_min (sc_ai s' WMT_SLOT) = 0 \<and>
      sint (ai_max (sc_ai s' WMT_SLOT)) =
        (let N = sint (cont_count_max (parse_features K (Some s) d));
             n = int (cont (parse_inputs K ops (Some s) d))
         in min (if N < 1 then n else N) (int (MAX_MT_SLOTS K)) - 1)"
proof -
  let ?st = "parse_inputs K ops (Some s) d"
  let ?N = "sint (cont_count_max (parse_features K (Some s) d))"
  from wmt_hid_parse_accepted [OF acc] obtain s2 where
    r: "wmt_hid_parse K ops (Some s) d = (type ?st, Some (wmt_publish K d ?st s2))" by blast
  have c0: "cont ?st \<noteq> 0" using acc by (simp add: wmt_rejected_def)
  have N: "sint (cont_count_max ?st) = ?N" by (simp add: parse_inputs_cont_count_max)
  let ?ccm1 = "if sint (cont_count_max ?st) < 1 then of_nat (cont ?st) else cont_count_max ?st"
  let ?ccm2 = "if sint ?ccm1 > int (MAX_MT_SLOTS K) then of_nat (MAX_MT_SLOTS K) else ?ccm1"
  have s1: "sint ?ccm1 = (if ?N < 1 then int (cont ?st) else ?N)"
    using N fingers by (simp add: sint_of_nat_32)
  have s2: "sint ?ccm2 = min (if ?N < 1 then int (cont ?st) else ?N) (int (MAX_MT_SLOTS K))"
    using s1 mx(2) by (simp add: sint_of_nat_32 min_def)
  have "1 \<le> sint ?ccm2" using s2 c0 mx(1) by (auto simp: min_def)
  from sint_minus_1 [OF this] have "sint (?ccm2 - 1) = sint ?ccm2 - 1" .
  then have "sint (ai_max (sc_ai (wmt_publish K d ?st s2) WMT_SLOT)) =
      min (if ?N < 1 then int (cont ?st) else ?N) (int (MAX_MT_SLOTS K)) - 1"
    using s2 by (simp add: wmt_publish_slot Let_def)
  moreover have "ai_min (sc_ai (wmt_publish K d ?st s2) WMT_SLOT) = 0"
    by (simp add: wmt_publish_slot)
  ultimately show ?thesis using r by (simp add: Let_def)
qed

theorem wmt_hid_parse_slot_axis_witness:
  "\<not> wmt_rejected freebsd_consts example_ops (Some zero_softc) touchscreen_desc \<and>
   sint (cont_count_max (parse_features freebsd_consts (Some zero_softc) touchscreen_desc)) = 5 \<and>
   (\<exists>s'. wmt_hid_parse freebsd_consts example_ops (Some zero_softc) touchscreen_desc = (4, Some s') \<and>
      ai_min (sc_ai s' WMT_SLOT) = 0 \<and> sint (ai_max (sc_ai s' WMT_SLOT)) = 4)"
proof -
  have a: "\<not> wmt_rejected freebsd_consts example_ops (Some zero_softc) touchscreen_desc"
    by code_simp
  have mx: "0 < MAX_MT_SLOTS freebsd_consts" "MAX_MT_SLOTS freebsd_consts < 2 ^ 31"
    by (simp_all add: freebsd_consts_def)
  have c: "cont (parse_inputs freebsd_consts example_ops (Some zero_softc) touchscreen_desc) = 1"
    by code_simp
  have f: "cont (parse_inputs freebsd_consts example_ops (Some zero_softc) touchscreen_desc) < 2 ^ 31"
    unfolding c by simp
  have n: "sint (cont_count_max (parse_features freebsd_consts (Some zero_softc) touchscreen_desc)) = 5"
    by code_simp
  have t: "type (parse_inputs freebsd_consts example_ops (Some zero_softc) touchscreen_desc) = 4"
    by code_simp
  have m: "MAX_MT_SLOTS freebsd_consts = 16" by (simp add: freebsd_consts_def)
  from wmt_hid_parse_slot_axis [OF a mx f] show ?thesis
    unfolding n c t m Let_def using a by simp
qed

section \<open>Probe mode against attach mode\<close>

lemma map_usages_ctrl:
  "(map_usages K ops hi js st)\<lparr>sc := x, caps := c\<rparr> = st\<lparr>sc := x, caps := c\<rparr>"
proof (induction js arbitrary: st)
  case Nil
  then show ?case by simp
next
  case (Cons j js)
  show ?case
  proof (cases "usage hi = mi_usage (wmt_hid_map K ! j)")
    case False
    then show ?thesis using Cons.IH by simp
  next
    case match: True
    show ?thesis
    proof (cases "sc st")
      case None
      then show ?thesis using match Cons.IH [of st] by simp
    next
      case (Some s)
      show ?thesis
      proof (cases "loc_size (sc_locs s (cont st) j) = 0")
        case False
        then have "map_usages K ops hi (j # js) st = map_usages K ops hi js st"
          using match Some by simp
        then show ?thesis using Cons.IH by (simp only:)
      next
        case True
        then show ?thesis using match Some by (simp add: Let_def)
      qed
    qed
  qed
qed

lemma map_usages_mono:
  assumes "USAGE_SUPPORTED (caps st) i" "\<forall>j \<in> set js. j < 32"
  shows "USAGE_SUPPORTED (caps (map_usages K ops hi js st)) i"
  using assms
proof (induction js arbitrary: st)
  case Nil
  then show ?case by simp
next
  case (Cons j js)
  then have j: "j < 32"
    and IH: "\<And>st. USAGE_SUPPORTED (caps st) i \<Longrightarrow> USAGE_SUPPORTED (caps (map_usages K ops hi js st)) i"
    by simp_all
  show ?case
  proof (cases "sc st")
    case None
    then show ?thesis using IH [of st] Cons.prems(1) j by (simp add: USAGE_SUPPORTED_or_exp)
  next
    case (Some s)
    then show ?thesis using IH [of st] Cons.prems(1) j by (simp add: Let_def USAGE_SUPPORTED_or_exp)
  qed
qed

text \<open>Without a softc, the first entry of the table with the usage of the item is set.\<close>

lemma map_usages_probe_first:
  assumes "sc st = None" "i \<in> set js" "usage hi = mi_usage (wmt_hid_map K ! i)"
    and "\<forall>j \<in> set js. j < i \<longrightarrow> mi_usage (wmt_hid_map K ! j) \<noteq> usage hi"
    and "sorted_wrt (<) js" "\<forall>j \<in> set js. j < 32"
  shows "USAGE_SUPPORTED (caps (map_usages K ops hi js st)) i"
  using assms
proof (induction js arbitrary: st)
  case Nil
  then show ?case by simp
next
  case (Cons j js)
  show ?case
  proof (cases "j = i")
    case True
    show ?thesis
    proof (cases "USAGE_SUPPORTED (caps st) i")
      case True
      from True Cons.prems(6) show ?thesis by (rule map_usages_mono)
    next
      case False
      then show ?thesis using \<open>j = i\<close> Cons.prems(1,3,6) by (simp add: USAGE_SUPPORTED_or_exp)
    qed
  next
    case False
    with Cons.prems(2) have i: "i \<in> set js" by simp
    with Cons.prems(5) have "j < i" by auto
    with Cons.prems(4) have skip: "usage hi \<noteq> mi_usage (wmt_hid_map K ! j)" by auto
    have "USAGE_SUPPORTED (caps (map_usages K ops hi js st)) i"
      using Cons.prems by (intro Cons.IH [OF _ i]) auto
    then show ?thesis using skip by simp
  qed
qed

lemma map_usages_row0:
  assumes "row0_bound st" "\<forall>j \<in> set js. j < WMT_N_USAGES"
  shows "row0_bound (map_usages K ops hi js st)"
  using assms
proof (induction js arbitrary: st)
  case Nil
  then show ?case by simp
next
  case (Cons j js)
  from Cons.prems obtain s where s: "sc st = Some s"
    and b: "\<forall>i < WMT_N_USAGES. loc_size (sc_locs s 0 i) \<noteq> 0 \<longrightarrow> USAGE_SUPPORTED (caps st) i"
    by (auto simp: row0_bound_def)
  from Cons.prems have j: "j < WMT_N_USAGES" and js: "\<forall>j \<in> set js. j < WMT_N_USAGES" by simp_all
  have IH: "row0_bound (map_usages K ops hi js st)" using Cons.IH [OF Cons.prems(1) js] .
  show ?case
  proof (cases "usage hi = mi_usage (wmt_hid_map K ! j) \<and> loc_size (sc_locs s (cont st) j) = 0")
    case False
    then have "map_usages K ops hi (j # js) st = map_usages K ops hi js st" using s by auto
    then show ?thesis using IH by (simp only:)
  next
    case True
    show ?thesis
    proof (cases "cont st > 0")
      case True
      then show ?thesis using \<open>usage hi = _ \<and> _\<close> s b
        by (auto simp: row0_bound_def Let_def)
    next
      case False
      then show ?thesis using \<open>usage hi = _ \<and> _\<close> s b j
        by (auto simp: row0_bound_def Let_def USAGE_SUPPORTED_or_exp)
    qed
  qed
qed

lemma map_usages_attach_first:
  assumes "sc st = Some s" "cont st = 0"
    and "loc_size (sc_locs s 0 i) \<noteq> 0 \<longrightarrow> USAGE_SUPPORTED (caps st) i"
    and "i \<in> set js" "usage hi = mi_usage (wmt_hid_map K ! i)"
    and "\<forall>j \<in> set js. j < i \<longrightarrow> mi_usage (wmt_hid_map K ! j) \<noteq> usage hi"
    and "sorted_wrt (<) js" "\<forall>j \<in> set js. j < 32"
  shows "USAGE_SUPPORTED (caps (map_usages K ops hi js st)) i"
  using assms
proof (induction js arbitrary: st)
  case Nil
  then show ?case by simp
next
  case (Cons j js)
  show ?case
  proof (cases "j = i")
    case True
    show ?thesis
    proof (cases "USAGE_SUPPORTED (caps st) i")
      case True
      from True Cons.prems(8) show ?thesis by (rule map_usages_mono)
    next
      case False
      with Cons.prems(3) have "loc_size (sc_locs s 0 i) = 0" by auto
      then show ?thesis using \<open>j = i\<close> Cons.prems(1,2,5,8)
        by (simp add: Let_def USAGE_SUPPORTED_or_exp)
    qed
  next
    case False
    with Cons.prems(4) have i: "i \<in> set js" by simp
    with Cons.prems(7) have "j < i" by auto
    with Cons.prems(6) have skip: "usage hi \<noteq> mi_usage (wmt_hid_map K ! j)" by auto
    have "USAGE_SUPPORTED (caps (map_usages K ops hi js st)) i"
      using Cons.prems by (intro Cons.IH [OF _ _ _ i]) auto
    then show ?thesis using skip by simp
  qed
qed

text \<open>After the first finger the loop writes other rows only and leaves the capabilities.\<close>

lemma map_usages_later_finger:
  assumes "sc st = Some s" "cont st > 0"
  shows "caps (map_usages K ops hi js st) = caps st \<and>
         (\<exists>s'. sc (map_usages K ops hi js st) = Some s' \<and> sc_locs s' 0 = sc_locs s 0)"
  using assms
proof (induction js arbitrary: st)
  case Nil
  then show ?case by simp
next
  case (Cons j js)
  show ?case
  proof (cases "usage hi = mi_usage (wmt_hid_map K ! j) \<and> loc_size (sc_locs s (cont st) j) = 0")
    case False
    then have "map_usages K ops hi (j # js) st = map_usages K ops hi js st" using Cons.prems by auto
    then show ?thesis using Cons.IH [OF Cons.prems] by (simp only:)
  next
    case True
    then show ?thesis using Cons.prems by (simp add: Let_def)
  qed
qed

lemma ctrl_fields:
  assumes "ctrl p = ctrl a"
  shows "cont p = cont a" "type p = type a" "report_id p = report_id a"
    "touch_coll p = touch_coll a" "finger_coll p = finger_coll a"
    "cont_count_found p = cont_count_found a" "scan_time_found p = scan_time_found a"
    "cont_max_rid p = cont_max_rid a"
proof -
  have "cont (ctrl p) = cont (ctrl a)" "type (ctrl p) = type (ctrl a)"
    "report_id (ctrl p) = report_id (ctrl a)" "touch_coll (ctrl p) = touch_coll (ctrl a)"
    "finger_coll (ctrl p) = finger_coll (ctrl a)"
    "cont_count_found (ctrl p) = cont_count_found (ctrl a)"
    "scan_time_found (ctrl p) = scan_time_found (ctrl a)"
    "cont_max_rid (ctrl p) = cont_max_rid (ctrl a)"
    using assms by simp_all
  then show "cont p = cont a" "type p = type a" "report_id p = report_id a"
    "touch_coll p = touch_coll a" "finger_coll p = finger_coll a"
    "cont_count_found p = cont_count_found a" "scan_time_found p = scan_time_found a"
    "cont_max_rid p = cont_max_rid a"
    by (simp_all add: ctrl_def)
qed

lemma map_usages_ctrl': "ctrl (map_usages K ops hi js st) = ctrl st"
  unfolding ctrl_def by (rule map_usages_ctrl)

lemma input_item_reaches:
  assumes "reaches_table K hi st" "\<not> (sc st = None \<and> cont st > 0)"
  shows "input_item K ops hi st =
           map_usages K ops hi [0 ..< WMT_N_USAGES] (st\<lparr>report_id := ucast (report_ID hi)\<rparr>)"
proof -
  from assms(1) have k: "kind hi = hid_input" and a: "WMT_HI_ABSOLUTE K hi" "touch_coll st"
    "same_report (report_id st) hi"
    and n1: "\<not> (collevel hi = 1 \<and> usage_is K hi (HUP_DIGITIZERS K) (HUD_CONTACTCOUNT K))"
    and n2: "\<not> (collevel hi = 1 \<and> usage_is K hi (HUP_DIGITIZERS K) (HUD_SCAN_TIME K))"
    and f: "finger_coll st" "collevel hi = 2" and c: "cont st < MAX_MT_SLOTS K"
    by (simp_all add: reaches_table_def)
  have l: "collevel hi \<noteq> 1" using f(2) by simp
  have m: "\<not> MAX_MT_SLOTS K \<le> cont st" using c by simp
  show ?thesis
    unfolding input_item_def Let_def
    using k a f l m assms(2) by (cases "sc st") simp_all
qed

lemma input_item_not_reaches:
  assumes "\<not> (reaches_table K hi st \<and> \<not> (sc st = None \<and> cont st > 0))"
  shows "caps (input_item K ops hi st) = caps st \<and>
         map_option sc_locs (sc (input_item K ops hi st)) = map_option sc_locs (sc st)"
proof (cases "kind hi")
  case hid_input
  show ?thesis
  proof (cases "reaches_table K hi st")
    case True
    with assms have "sc st = None" "cont st > 0" by simp_all
    then show ?thesis using hid_input by (simp add: input_item_def Let_def)
  next
    case False
    then show ?thesis using hid_input
      unfolding reaches_table_def input_item_def Let_def
      by (cases "sc st") (auto simp: linorder_not_less)
  qed
qed (simp_all add: input_item_def Let_def)

lemma input_item_folded:
  "input_item K ops hi st =
     (case kind hi of
        hid_collection \<Rightarrow>
          let st1 = (if collevel hi = 1 \<and> usage_is K hi (HUP_DIGITIZERS K) (HUD_TOUCHSCREEN K)
                     then st\<lparr>touch_coll := True, type := HUD_TOUCHSCREEN K\<rparr> else st)
          in if collevel hi = 1 \<and> usage_is K hi (HUP_DIGITIZERS K) (HUD_TOUCHPAD K)
             then st1\<lparr>touch_coll := True, type := HUD_TOUCHPAD K\<rparr>
             else if touch_coll st1 \<and> collevel hi = 2 \<and>
                     same_report (report_id st1) hi \<and>
                     usage_is K hi (HUP_DIGITIZERS K) (HUD_FINGER K)
             then st1\<lparr>finger_coll := True\<rparr>
             else st1
      | hid_endcollection \<Rightarrow>
          if collevel hi = 1 \<and> finger_coll st then st\<lparr>finger_coll := False, cont := cont st + 1\<rparr>
          else if collevel hi = 0 \<and> touch_coll st then st\<lparr>touch_coll := False\<rparr>
          else st
      | hid_input \<Rightarrow>
          if pinned K hi st
          then
            let st1 = st\<lparr>report_id := ucast (report_ID hi)\<rparr>
            in if is_count K hi
               then st1\<lparr>cont_count_found := True,
                        sc := map_option (\<lambda>s. s\<lparr>sc_cont_count_loc := loc hi\<rparr>) (sc st1)\<rparr>
               else if is_scan K hi
               then st1\<lparr>scan_time_found := True\<rparr>
               else if \<not> finger_coll st1 \<or> collevel hi \<noteq> 2 then st1
               else if sc st1 = None \<and> cont st1 > 0 then st1
               else if cont st1 \<ge> MAX_MT_SLOTS K then st1
               else map_usages K ops hi [0 ..< WMT_N_USAGES] st1
          else st
      | _ \<Rightarrow> st)"
  unfolding input_item_def pinned_def is_count_def is_scan_def ..

lemma input_item_cases:
  assumes k: "kind hi = hid_input"
  shows "input_item K ops hi st =
     (if \<not> pinned K hi st then st
      else if is_count K hi
      then st\<lparr>report_id := ucast (report_ID hi), cont_count_found := True,
              sc := map_option (\<lambda>s. s\<lparr>sc_cont_count_loc := loc hi\<rparr>) (sc st)\<rparr>
      else if is_scan K hi then st\<lparr>report_id := ucast (report_ID hi), scan_time_found := True\<rparr>
      else if finger_coll st \<and> collevel hi = 2 \<and> cont st < MAX_MT_SLOTS K \<and>
              \<not> (sc st = None \<and> cont st > 0)
      then map_usages K ops hi [0 ..< WMT_N_USAGES] (st\<lparr>report_id := ucast (report_ID hi)\<rparr>)
      else st\<lparr>report_id := ucast (report_ID hi)\<rparr>)"
proof (cases "pinned K hi st")
  case False
  then show ?thesis using k by (simp add: input_item_folded)
next
  case p: True
  show ?thesis
  proof (cases "is_count K hi")
    case True
    then show ?thesis using k p by (simp add: input_item_folded Let_def)
  next
    case c: False
    show ?thesis
    proof (cases "is_scan K hi")
      case True
      then show ?thesis using k p c by (simp add: input_item_folded Let_def)
    next
      case s: False
      show ?thesis
      proof (cases "finger_coll st \<and> collevel hi = 2 \<and> cont st < MAX_MT_SLOTS K \<and>
              \<not> (sc st = None \<and> cont st > 0)")
        case True
        then show ?thesis using k p c s
          by (auto simp add: input_item_folded Let_def linorder_not_le
              simp del: map_usages.simps upt_rec_numeral)
      next
        case False
        then have "\<not> finger_coll st \<or> collevel hi \<noteq> 2 \<or> (sc st = None \<and> cont st > 0) \<or>
            cont st \<ge> MAX_MT_SLOTS K" by auto
        then show ?thesis using k p c s False
          by (auto simp add: input_item_folded Let_def simp del: map_usages.simps upt_rec_numeral)
      qed
    qed
  qed
qed

lemma pinned_ctrl [simp]: "pinned K hi (ctrl st) = pinned K hi st"
  by (simp add: pinned_def ctrl_def)

lemma ctrl_sel [simp]:
  "sc (ctrl st) = None" "caps (ctrl st) = 0" "cont (ctrl st) = cont st" "type (ctrl st) = type st"
  "report_id (ctrl st) = report_id st" "touch_coll (ctrl st) = touch_coll st"
  "finger_coll (ctrl st) = finger_coll st" "cont_count_found (ctrl st) = cont_count_found st"
  "scan_time_found (ctrl st) = scan_time_found st" "cont_max_rid (ctrl st) = cont_max_rid st"
  by (simp_all add: ctrl_def)

lemma ctrl_idem [simp]: "ctrl (ctrl st) = ctrl st"
  by (simp add: ctrl_def)

lemma ctrl_upd:
  "ctrl (st\<lparr>report_id := r\<rparr>) = (ctrl st)\<lparr>report_id := r\<rparr>"
  "ctrl (st\<lparr>report_id := r, cont_count_found := True, sc := x\<rparr>) =
     (ctrl st)\<lparr>report_id := r, cont_count_found := True\<rparr>"
  "ctrl (st\<lparr>report_id := r, scan_time_found := True\<rparr>) =
     (ctrl st)\<lparr>report_id := r, scan_time_found := True\<rparr>"
  by (simp_all add: ctrl_def)

lemma ctrl_if: "ctrl (if c then a else b) = (if c then ctrl a else ctrl b)"
  by simp

lemma ctrl_update:
  "ctrl (touch_coll_update f1 st) = touch_coll_update f1 (ctrl st)"
  "ctrl (finger_coll_update f2 st) = finger_coll_update f2 (ctrl st)"
  "ctrl (type_update f3 st) = type_update f3 (ctrl st)"
  "ctrl (cont_update f4 st) = cont_update f4 (ctrl st)"
  "ctrl (report_id_update f5 st) = report_id_update f5 (ctrl st)"
  "ctrl (cont_count_found_update f6 st) = cont_count_found_update f6 (ctrl st)"
  "ctrl (scan_time_found_update f7 st) = scan_time_found_update f7 (ctrl st)"
  "ctrl (sc_update f8 st) = ctrl st"
  "ctrl (caps_update f9 st) = ctrl st"
  by (simp_all add: ctrl_def)

lemma input_item_ctrl_endcoll:
  assumes "kind hi = hid_endcollection"
  shows "ctrl (input_item K ops hi st) = ctrl (input_item K ops hi (ctrl st))"
  using assms by (simp add: input_item_def ctrl_if ctrl_update)

lemma input_item_ctrl_coll:
  assumes "kind hi = hid_collection"
  shows "ctrl (input_item K ops hi st) = ctrl (input_item K ops hi (ctrl st))"
proof (cases "collevel hi = 1")
  case False
  then show ?thesis using assms by (simp add: input_item_def Let_def ctrl_if ctrl_update)
next
  case l: True
  show ?thesis
  proof (cases "usage_is K hi (HUP_DIGITIZERS K) (HUD_TOUCHSCREEN K)")
    case True
    then show ?thesis using assms l by (simp add: input_item_def Let_def ctrl_if ctrl_update)
  next
    case False
    then show ?thesis using assms l by (simp add: input_item_def Let_def ctrl_if ctrl_update)
  qed
qed

lemma input_item_ctrl_input:
  assumes "kind hi = hid_input"
  shows "ctrl (input_item K ops hi st) = ctrl (input_item K ops hi (ctrl st))"
proof -
  have m: "\<And>st. ctrl (map_usages K ops hi [0 ..< WMT_N_USAGES] st) = ctrl st"
    by (rule map_usages_ctrl')
  show ?thesis
    unfolding input_item_cases [OF assms]
    by (simp add: m ctrl_upd del: map_usages.simps upt_rec_numeral)
qed

lemma input_item_ctrl: "ctrl (input_item K ops hi st) = ctrl (input_item K ops hi (ctrl st))"
proof (cases "kind hi")
  case hid_input
  then show ?thesis by (rule input_item_ctrl_input)
next
  case hid_collection
  then show ?thesis by (rule input_item_ctrl_coll)
next
  case hid_endcollection
  then show ?thesis by (rule input_item_ctrl_endcoll)
qed (simp_all add: input_item_def)

lemma reaches_table_ctrl: "reaches_table K hi (ctrl st) = reaches_table K hi st"
  by (simp add: reaches_table_def)

lemma published_opt_None: "published_opt x = None \<longleftrightarrow> x = None"
  by (simp add: published_opt_def)

lemma input_item_sc_None:
  assumes "sc st = None"
  shows "sc (input_item K ops hi st) = None"
proof -
  have "published_opt (sc (input_item K ops hi st)) = published_opt None"
    unfolding assms [symmetric] by (rule input_item_published)
  also have "\<dots> = None" by (simp add: published_opt_def)
  finally show ?thesis by (simp only: published_opt_None)
qed

lemma upt_usages: "sorted_wrt (<) [0 ..< WMT_N_USAGES]" "\<forall>j \<in> set [0 ..< WMT_N_USAGES]. j < 32"
  "\<forall>j \<in> set [0 ..< WMT_N_USAGES]. j < WMT_N_USAGES"
  by (simp_all del: upt_rec_numeral)

lemma probe_sim_step:
  assumes "probe_sim K p a"
  shows "probe_sim K (input_item K ops hi p) (input_item K ops hi a)"
proof -
  from assms have scp: "sc p = None" and c: "ctrl p = ctrl a" and r: "row0_bound a"
    and b: "\<forall>i < WMT_N_USAGES. usage_first K i \<longrightarrow>
        USAGE_SUPPORTED (caps p) i = USAGE_SUPPORTED (caps a) i"
    by (simp_all add: probe_sim_def)
  have c': "ctrl (input_item K ops hi p) = ctrl (input_item K ops hi a)"
    using input_item_ctrl [of K ops hi p] input_item_ctrl [of K ops hi a] c by simp
  have scp': "sc (input_item K ops hi p) = None" using scp by (rule input_item_sc_None)
  have rt: "reaches_table K hi p = reaches_table K hi a"
    using reaches_table_ctrl [of K hi p] reaches_table_ctrl [of K hi a] c by simp
  have cont: "cont p = cont a" using c by (rule ctrl_fields)
  from r obtain s where s: "sc a = Some s"
    and rb: "\<forall>i < WMT_N_USAGES. loc_size (sc_locs s 0 i) \<noteq> 0 \<longrightarrow> USAGE_SUPPORTED (caps a) i"
    by (auto simp: row0_bound_def)
  let ?p1 = "p\<lparr>report_id := ucast (report_ID hi)\<rparr>"
  let ?a1 = "a\<lparr>report_id := ucast (report_ID hi)\<rparr>"
  have rest: "row0_bound (input_item K ops hi a) \<and>
    (\<forall>i < WMT_N_USAGES. usage_first K i \<longrightarrow>
        USAGE_SUPPORTED (caps (input_item K ops hi p)) i =
        USAGE_SUPPORTED (caps (input_item K ops hi a)) i)"
  proof (cases "reaches_table K hi a")
    case False
    with rt have np: "\<not> (reaches_table K hi p \<and> \<not> (sc p = None \<and> cont p > 0))"
      and na: "\<not> (reaches_table K hi a \<and> \<not> (sc a = None \<and> cont a > 0))" by simp_all
    from input_item_not_reaches [OF np] have cp: "caps (input_item K ops hi p) = caps p" by simp
    from input_item_not_reaches [OF na] have ca: "caps (input_item K ops hi a) = caps a"
      and la: "map_option sc_locs (sc (input_item K ops hi a)) = map_option sc_locs (sc a)"
      by simp_all
    from la s obtain s' where "sc (input_item K ops hi a) = Some s'" "sc_locs s' = sc_locs s"
      by auto
    then have "row0_bound (input_item K ops hi a)" using rb ca by (simp add: row0_bound_def)
    then show ?thesis using b cp ca by simp
  next
    case reach: True
    have ia: "input_item K ops hi a = map_usages K ops hi [0 ..< WMT_N_USAGES] ?a1"
      using reach s by (intro input_item_reaches) simp_all
    show ?thesis
    proof (cases "cont a = 0")
      case False
      then have np: "\<not> (reaches_table K hi p \<and> \<not> (sc p = None \<and> cont p > 0))"
        using scp cont by simp
      from input_item_not_reaches [OF np] have cp: "caps (input_item K ops hi p) = caps p" by simp
      have "sc ?a1 = Some s" "cont ?a1 > 0" using s False by simp_all
      from map_usages_later_finger [OF this, of K ops hi "[0 ..< WMT_N_USAGES]"]
      obtain s' where ca: "caps (input_item K ops hi a) = caps a"
        and "sc (input_item K ops hi a) = Some s'" "sc_locs s' 0 = sc_locs s 0"
        unfolding ia by auto
      then have "row0_bound (input_item K ops hi a)" using rb by (simp add: row0_bound_def)
      then show ?thesis using b cp ca by simp
    next
      case zero: True
      have ip: "input_item K ops hi p = map_usages K ops hi [0 ..< WMT_N_USAGES] ?p1"
        using reach rt zero cont by (intro input_item_reaches) simp_all
      have "row0_bound ?a1" using s rb by (simp add: row0_bound_def)
      from map_usages_row0 [OF this upt_usages(3)]
      have r': "row0_bound (input_item K ops hi a)" unfolding ia .
      have "USAGE_SUPPORTED (caps (input_item K ops hi p)) i =
            USAGE_SUPPORTED (caps (input_item K ops hi a)) i"
        if i: "i < WMT_N_USAGES" and f: "usage_first K i" for i
      proof (cases "usage hi = mi_usage (wmt_hid_map K ! i)")
        case False
        from map_usages_other [OF False upt_usages(2)]
        show ?thesis unfolding ip ia using b i f by simp
      next
        case True
        have mem: "i \<in> set [0 ..< WMT_N_USAGES]" using i by (simp del: upt_rec_numeral)
        have before: "\<forall>j \<in> set [0 ..< WMT_N_USAGES]. j < i \<longrightarrow>
            mi_usage (wmt_hid_map K ! j) \<noteq> usage hi"
          using f True by (simp add: usage_first_def del: upt_rec_numeral)
        have "sc ?p1 = None" using scp by simp
        from map_usages_probe_first [OF this mem True before upt_usages(1,2)]
        have 1: "USAGE_SUPPORTED (caps (input_item K ops hi p)) i" unfolding ip .
        have "sc ?a1 = Some s" "cont ?a1 = 0"
          "loc_size (sc_locs s 0 i) \<noteq> 0 \<longrightarrow> USAGE_SUPPORTED (caps ?a1) i"
          using s zero rb i by simp_all
        from map_usages_attach_first [OF this mem True before upt_usages(1,2)]
        have 2: "USAGE_SUPPORTED (caps (input_item K ops hi a)) i" unfolding ia .
        from 1 2 show ?thesis by simp
      qed
      then show ?thesis using r' by simp
    qed
  qed
  then show ?thesis using scp' c' by (simp add: probe_sim_def)
qed

lemma probe_sim_fold:
  "probe_sim K p a \<Longrightarrow> probe_sim K (fold (input_item K ops) hs p) (fold (input_item K ops) hs a)"
  by (induction hs arbitrary: p a) (simp_all add: probe_sim_step)

lemma strip_if: "strip (if c then a else b) = (if c then strip a else strip b)"
  by simp

lemma strip_update:
  "strip (touch_coll_update f1 st) = touch_coll_update f1 (strip st)"
  "strip (conf_coll_update f2 st) = conf_coll_update f2 (strip st)"
  "strip (thqa_cert_rid_update f3 st) = thqa_cert_rid_update f3 (strip st)"
  "strip (cont_count_max_update f4 st) = cont_count_max_update f4 (strip st)"
  "strip (cont_max_rid_update f5 st) = cont_max_rid_update f5 (strip st)"
  "strip (input_mode_rid_update f6 st) = input_mode_rid_update f6 (strip st)"
  "strip (sc_update f7 st) = strip st"
  by (simp_all add: strip_def)

lemma strip_sel [simp]:
  "touch_coll (strip st) = touch_coll st" "conf_coll (strip st) = conf_coll st"
  "sc (strip st) = None" "cont_max_rid (strip st) = cont_max_rid st" "caps (strip st) = caps st"
  by (simp_all add: strip_def)

lemma feature_item_strip: "strip (feature_item K hi st) = feature_item K hi (strip st)"
proof (cases "kind hi")
  case hid_collection
  show ?thesis
  proof (cases "collevel hi = 1")
    case True
    then show ?thesis using hid_collection
      by (simp add: feature_item_def Let_def strip_if strip_update)
  next
    case False
    then show ?thesis using hid_collection
      by (simp add: feature_item_def Let_def strip_if strip_update)
  qed
next
  case hid_endcollection
  then show ?thesis by (simp add: feature_item_def strip_if strip_update)
next
  case hid_feature
  note defs = feature_item_def Let_def strip_if strip_update
  show ?thesis
  proof (cases "collevel hi = 1")
    case l: False
    show ?thesis
    proof (cases "conf_coll st")
      case True
      then show ?thesis using hid_feature l by (simp add: defs)
    next
      case False
      then show ?thesis using hid_feature l by (simp add: defs)
    qed
  next
    case l: True
    show ?thesis
    proof (cases "touch_coll st")
      case t: False
      show ?thesis
      proof (cases "conf_coll st")
        case True
        then show ?thesis using hid_feature l t by (simp add: defs)
      next
        case False
        then show ?thesis using hid_feature l t by (simp add: defs)
      qed
    next
      case t: True
      show ?thesis
      proof (cases "usage_is K hi (HUP_MICROSOFT K) HUMS_THQA_CERT")
        case True
        then show ?thesis using hid_feature l t by (simp add: defs)
      next
        case q: False
        show ?thesis
        proof (cases "WMT_HI_ABSOLUTE K hi")
          case False
          then show ?thesis using hid_feature l t q by (simp add: defs)
        next
          case a: True
          show ?thesis
          proof (cases "usage_is K hi (HUP_DIGITIZERS K) (HUD_CONTACT_MAX K)")
            case True
            then show ?thesis using hid_feature l t q a by (simp add: defs)
          next
            case False
            then show ?thesis using hid_feature l t q a by (simp add: defs)
          qed
        qed
      qed
    qed
  qed
qed (simp_all add: feature_item_def)

lemma fold_feature_item_strip:
  "strip (fold (feature_item K) hs st) = fold (feature_item K) hs (strip st)"
  by (induction hs arbitrary: st) (simp_all add: feature_item_strip)

lemma parse_features_strip: "parse_features K None d = strip (parse_features K (Some s) d)"
  by (simp add: parse_features_def fold_feature_item_strip) (simp add: strip_def wmt_locals_init_def)

lemma feature_item_locs:
  "map_option sc_locs (sc (feature_item K hi st)) = map_option sc_locs (sc st)"
proof -
  have "map_option sc_locs (sc (feature_item K hi st)) = map_option sc_locs (sc st)"
    if "sc st = None"
  proof -
    have "published_opt (sc (feature_item K hi st)) = published_opt None"
      unfolding that [symmetric] by (rule feature_item_published)
    then have "sc (feature_item K hi st) = None" by (simp add: published_opt_def)
    then show ?thesis using that by simp
  qed
  moreover have "map_option sc_locs (sc (feature_item K hi st)) = map_option sc_locs (sc st)"
    if "sc st = Some s" for s
    using that by (cases "kind hi") (simp_all add: feature_item_def Let_def)
  ultimately show ?thesis by (cases "sc st") simp_all
qed

lemma fold_feature_item_locs:
  "map_option sc_locs (sc (fold (feature_item K) hs st)) = map_option sc_locs (sc st)"
  by (induction hs arbitrary: st) (simp_all add: feature_item_locs)

lemma parse_features_locs:
  "\<exists>s'. sc (parse_features K (Some s) d) = Some s' \<and> sc_locs s' = sc_locs s"
  using fold_feature_item_locs [of K "d hid_feature" "wmt_locals_init (Some s)"]
  by (auto simp: parse_features_def wmt_locals_init_def)

lemma parse_inputs_probe_sim:
  assumes "\<forall>u < WMT_N_USAGES. loc_size (sc_locs s 0 u) = 0"
  shows "probe_sim K (parse_inputs K ops None d) (parse_inputs K ops (Some s) d)"
proof -
  let ?p = "(parse_features K None d)\<lparr>touch_coll := False\<rparr>"
  let ?a = "(parse_features K (Some s) d)\<lparr>touch_coll := False\<rparr>"
  have e: "parse_features K None d = strip (parse_features K (Some s) d)"
    by (rule parse_features_strip)
  have 1: "sc ?p = None" by (simp add: e)
  have 2: "ctrl ?p = ctrl ?a" by (simp add: e strip_def ctrl_def)
  from parse_features_locs obtain s' where
    s': "sc (parse_features K (Some s) d) = Some s'" "sc_locs s' = sc_locs s" by blast
  have 3: "row0_bound ?a" using s' assms by (simp add: row0_bound_def)
  have 4: "caps ?p = 0" "caps ?a = 0" by (simp_all add: parse_features_caps)
  have "probe_sim K ?p ?a" using 1 2 3 unfolding probe_sim_def 4 by simp
  then show ?thesis unfolding parse_inputs_def by (rule probe_sim_fold)
qed

text \<open>
  In the first finger, on a field of non-zero size, the two modes skip the same entries
  of the table and bind the same one.
\<close>

lemma map_usages_same:
  assumes "sc p = None" "sc a = Some s" "cont a = 0" "caps p = caps a"
    and "\<forall>i < WMT_N_USAGES. (loc_size (sc_locs s 0 i) \<noteq> 0) = USAGE_SUPPORTED (caps a) i"
    and "loc_size (loc hi) \<noteq> 0" "\<forall>j \<in> set js. j < WMT_N_USAGES"
  shows "caps (map_usages K ops hi js p) = caps (map_usages K ops hi js a) \<and>
         row0_exact (map_usages K ops hi js a)"
  using assms(7)
proof (induction js)
  case Nil
  then show ?case using assms(2,4,5) by (simp add: row0_exact_def)
next
  case (Cons j js)
  then have j: "j < WMT_N_USAGES" and js: "\<forall>j \<in> set js. j < WMT_N_USAGES" by simp_all
  note IH = Cons.IH [OF js]
  from assms(5) j have t: "(loc_size (sc_locs s 0 j) \<noteq> 0) = USAGE_SUPPORTED (caps a) j" by simp
  show ?case
  proof (cases "usage hi = mi_usage (wmt_hid_map K ! j)")
    case False
    then show ?thesis using IH by simp
  next
    case match: True
    show ?thesis
    proof (cases "USAGE_SUPPORTED (caps a) j")
      case True
      then have "map_usages K ops hi (j # js) p = map_usages K ops hi js p"
        "map_usages K ops hi (j # js) a = map_usages K ops hi js a"
        using match assms(1,2,3,4) t by simp_all
      then show ?thesis using IH by (simp only:)
    next
      case False
      with t have z: "loc_size (sc_locs s 0 j) = 0" by simp
      have j32: "j < 32" using j by simp
      have cp: "caps (map_usages K ops hi (j # js) p) = caps a OR 2 ^ j"
        using match assms(1,4) False by simp
      have ca: "caps (map_usages K ops hi (j # js) a) = caps a OR 2 ^ j"
        using match assms(2,3) z by (simp add: Let_def)
      have "\<exists>s'. sc (map_usages K ops hi (j # js) a) = Some s' \<and>
              sc_locs s' 0 = (sc_locs s 0)(j := loc hi)"
        using match assms(2,3) z by (simp add: Let_def)
      then obtain s' where s': "sc (map_usages K ops hi (j # js) a) = Some s'"
        "sc_locs s' 0 = (sc_locs s 0)(j := loc hi)" by blast
      have "(loc_size (sc_locs s' 0 i) \<noteq> 0) = USAGE_SUPPORTED (caps a OR 2 ^ j) i"
        if "i < WMT_N_USAGES" for i
        using that assms(5,6) s'(2) by (simp add: USAGE_SUPPORTED_or_exp [OF j32])
      then have "row0_exact (map_usages K ops hi (j # js) a)"
        unfolding row0_exact_def ca using s'(1) by simp
      then show ?thesis using cp ca by simp
    qed
  qed
qed

lemma probe_eq_step:
  assumes "probe_eq p a" "kind hi = hid_input \<longrightarrow> loc_size (loc hi) \<noteq> 0"
  shows "probe_eq (input_item K ops hi p) (input_item K ops hi a)"
proof -
  from assms(1) have scp: "sc p = None" and c: "ctrl p = ctrl a" and e: "caps p = caps a"
    and r: "row0_exact a"
    by (simp_all add: probe_eq_def)
  have c': "ctrl (input_item K ops hi p) = ctrl (input_item K ops hi a)"
    using input_item_ctrl [of K ops hi p] input_item_ctrl [of K ops hi a] c by simp
  have scp': "sc (input_item K ops hi p) = None" using scp by (rule input_item_sc_None)
  have rt: "reaches_table K hi p = reaches_table K hi a"
    using reaches_table_ctrl [of K hi p] reaches_table_ctrl [of K hi a] c by simp
  have cont: "cont p = cont a" using c by (rule ctrl_fields)
  from r obtain s where s: "sc a = Some s"
    and rb: "\<forall>i < WMT_N_USAGES. (loc_size (sc_locs s 0 i) \<noteq> 0) = USAGE_SUPPORTED (caps a) i"
    by (auto simp: row0_exact_def)
  let ?p1 = "p\<lparr>report_id := ucast (report_ID hi)\<rparr>"
  let ?a1 = "a\<lparr>report_id := ucast (report_ID hi)\<rparr>"
  have rest: "caps (input_item K ops hi p) = caps (input_item K ops hi a) \<and>
    row0_exact (input_item K ops hi a)"
  proof (cases "reaches_table K hi a")
    case False
    with rt have np: "\<not> (reaches_table K hi p \<and> \<not> (sc p = None \<and> cont p > 0))"
      and na: "\<not> (reaches_table K hi a \<and> \<not> (sc a = None \<and> cont a > 0))" by simp_all
    from input_item_not_reaches [OF np] have cp: "caps (input_item K ops hi p) = caps p" by simp
    from input_item_not_reaches [OF na] have ca: "caps (input_item K ops hi a) = caps a"
      and la: "map_option sc_locs (sc (input_item K ops hi a)) = map_option sc_locs (sc a)"
      by simp_all
    from la s obtain s' where "sc (input_item K ops hi a) = Some s'" "sc_locs s' = sc_locs s"
      by auto
    then have "row0_exact (input_item K ops hi a)" using rb ca by (simp add: row0_exact_def)
    then show ?thesis using e cp ca by simp
  next
    case reach: True
    have ia: "input_item K ops hi a = map_usages K ops hi [0 ..< WMT_N_USAGES] ?a1"
      using reach s by (intro input_item_reaches) simp_all
    show ?thesis
    proof (cases "cont a = 0")
      case False
      then have np: "\<not> (reaches_table K hi p \<and> \<not> (sc p = None \<and> cont p > 0))"
        using scp cont by simp
      from input_item_not_reaches [OF np] have cp: "caps (input_item K ops hi p) = caps p" by simp
      have "sc ?a1 = Some s" "cont ?a1 > 0" using s False by simp_all
      from map_usages_later_finger [OF this, of K ops hi "[0 ..< WMT_N_USAGES]"]
      obtain s' where ca: "caps (input_item K ops hi a) = caps a"
        and "sc (input_item K ops hi a) = Some s'" "sc_locs s' 0 = sc_locs s 0"
        unfolding ia by auto
      then have "row0_exact (input_item K ops hi a)" using rb by (simp add: row0_exact_def)
      then show ?thesis using e cp ca by simp
    next
      case zero: True
      have ip: "input_item K ops hi p = map_usages K ops hi [0 ..< WMT_N_USAGES] ?p1"
        using reach rt zero cont by (intro input_item_reaches) simp_all
      from reach have "kind hi = hid_input" by (simp add: reaches_table_def)
      with assms(2) have w: "loc_size (loc hi) \<noteq> 0" by simp
      have "sc ?p1 = None" "sc ?a1 = Some s" "cont ?a1 = 0" "caps ?p1 = caps ?a1"
        "\<forall>i < WMT_N_USAGES. (loc_size (sc_locs s 0 i) \<noteq> 0) = USAGE_SUPPORTED (caps ?a1) i"
        using scp s zero e rb by simp_all
      from map_usages_same [OF this w upt_usages(3)]
      show ?thesis unfolding ip ia .
    qed
  qed
  then show ?thesis using scp' c' by (simp add: probe_eq_def)
qed

lemma probe_eq_fold:
  assumes "probe_eq p a" "\<forall>h \<in> set hs. kind h = hid_input \<longrightarrow> loc_size (loc h) \<noteq> 0"
  shows "probe_eq (fold (input_item K ops) hs p) (fold (input_item K ops) hs a)"
  using assms by (induction hs arbitrary: p a) (simp_all add: probe_eq_step)

lemma parse_inputs_probe_eq:
  assumes "\<forall>u < WMT_N_USAGES. loc_size (sc_locs s 0 u) = 0"
    and "\<forall>h \<in> set (d hid_input). kind h = hid_input \<longrightarrow> loc_size (loc h) \<noteq> 0"
  shows "caps (parse_inputs K ops None d) = caps (parse_inputs K ops (Some s) d)"
proof -
  let ?p = "(parse_features K None d)\<lparr>touch_coll := False\<rparr>"
  let ?a = "(parse_features K (Some s) d)\<lparr>touch_coll := False\<rparr>"
  have e: "parse_features K None d = strip (parse_features K (Some s) d)"
    by (rule parse_features_strip)
  have 1: "sc ?p = None" by (simp add: e)
  have 2: "ctrl ?p = ctrl ?a" by (simp add: e strip_def ctrl_def)
  from parse_features_locs obtain s' where
    s': "sc (parse_features K (Some s) d) = Some s'" "sc_locs s' = sc_locs s" by blast
  have 4: "caps ?p = 0" "caps ?a = 0" by (simp_all add: parse_features_caps)
  have 3: "row0_exact ?a" using s' assms(1) unfolding row0_exact_def 4
    by (simp add: USAGE_SUPPORTED_0)
  have "probe_eq ?p ?a" using 1 2 3 unfolding probe_eq_def 4 by simp
  then have "probe_eq (parse_inputs K ops None d) (parse_inputs K ops (Some s) d)"
    unfolding parse_inputs_def using assms(2) by (rule probe_eq_fold)
  then show ?thesis by (simp add: probe_eq_def)
qed

lemma required_missing_cong:
  assumes "\<forall>i < WMT_N_USAGES. mi_required (wmt_hid_map K ! i) \<longrightarrow>
     USAGE_SUPPORTED c1 i = USAGE_SUPPORTED c2 i"
  shows "required_missing K c1 = required_missing K c2"
  using assms unfolding required_missing_def list_ex_iff
  by (auto simp del: upt_rec_numeral)

lemma fst_wmt_hid_parse:
  "fst (wmt_hid_parse K ops s d) =
     (if wmt_rejected K ops s d then 0 else type (parse_inputs K ops s d))"
  by (cases "sc (parse_inputs K ops s d)") (auto simp: wmt_hid_parse_def wmt_rejected_def Let_def)

text \<open>
  C9, as stated, is about every descriptor and every softc, and says that the shortcuts
  of probe mode do not change the computed capability set. It fails in two ways.

  The descriptor \<open>zero_width_desc\<close> passes all checks in both modes, which return the
  touchscreen type, 4. Its finger collection has two X fields and two Y fields of no
  width. Probe mode binds the second X field to the tool X usage, since the position
  usage is supported already (line 731). Attach mode tests the size of the stored
  location (line 742), which is still 0, and binds the position usage again. The same
  happens to Y. The capabilities are \<open>0xC71\<close> in probe mode and \<open>0x71\<close> in attach
  mode, which stores them in the softc.

  With the softc \<open>used_softc\<close>, whose row 0 of \<open>sc->locs\<close> holds a location for X
  already, attach mode skips the position entry for the X field of \<open>touchscreen_desc\<close>
  and binds tool X: the required X usage is missing and \<open>wmt_hid_parse\<close> returns 0,
  while probe mode returns 4.
\<close>

theorem wmt_hid_parse_probe_attach_differ:
  "fst (wmt_hid_parse freebsd_consts example_ops None zero_width_desc) = 4 \<and>
   fst (wmt_hid_parse freebsd_consts example_ops (Some zero_softc) zero_width_desc) = 4 \<and>
   caps (parse_inputs freebsd_consts example_ops None zero_width_desc) = 0xC71 \<and>
   caps (parse_inputs freebsd_consts example_ops (Some zero_softc) zero_width_desc) = 0x71 \<and>
   map_option sc_caps (snd (wmt_hid_parse freebsd_consts example_ops (Some zero_softc) zero_width_desc))
     = Some 0x71 \<and>
   fst (wmt_hid_parse freebsd_consts example_ops None touchscreen_desc) = 4 \<and>
   fst (wmt_hid_parse freebsd_consts example_ops (Some used_softc) touchscreen_desc) = 0 \<and>
   caps (parse_inputs freebsd_consts example_ops (Some used_softc) touchscreen_desc) = 0x461"
  by code_simp

text \<open>
  With the constants of FreeBSD every entry of the usage table but tool X and tool Y is
  the first of its usage.
\<close>

lemma usage_first_freebsd:
  "list_all (usage_first freebsd_consts) [0 ..< WMT_TOOL_X] \<and>
   \<not> usage_first freebsd_consts WMT_TOOL_X \<and> \<not> usage_first freebsd_consts WMT_TOOL_Y"
proof -
  have e: "usage_first K i \<longleftrightarrow>
      list_all (\<lambda>j. mi_usage (wmt_hid_map K ! j) \<noteq> mi_usage (wmt_hid_map K ! i)) [0 ..< i]" for K i
    by (auto simp: usage_first_def list_all_iff simp del: upt_rec_numeral)
  show ?thesis unfolding e by code_simp
qed

text \<open>
  C9, amended. For every descriptor, with a softc whose first row of locations holds no
  size yet (the softc of \<open>imt_attach\<close> is filled with zeros) and a usage table whose
  required usages are not the usage of an earlier entry: \<open>wmt_hid_parse\<close> returns the
  same number in probe mode and in attach mode, the collection type when the checks
  accept and 0 when they reject, and they accept or reject alike; the collection type,
  the found-flags and the number of fingers are the same, and so is every capability
  whose entry is the first of its usage in the table (with the constants of FreeBSD, all
  but tool X and tool Y). When no input field of the descriptor has width 0, the whole
  capability set is the same.
\<close>

theorem wmt_hid_parse_probe_attach:
  assumes zero: "\<forall>u < WMT_N_USAGES. loc_size (sc_locs s 0 u) = 0"
    and tbl: "\<forall>i < WMT_N_USAGES. mi_required (wmt_hid_map K ! i) \<longrightarrow> usage_first K i"
  shows "fst (wmt_hid_parse K ops None d) = fst (wmt_hid_parse K ops (Some s) d) \<and>
    fst (wmt_hid_parse K ops None d) =
      (if wmt_rejected K ops None d then 0 else type (parse_inputs K ops None d)) \<and>
    wmt_rejected K ops None d = wmt_rejected K ops (Some s) d \<and>
    type (parse_inputs K ops None d) = type (parse_inputs K ops (Some s) d) \<and>
    cont_count_found (parse_inputs K ops None d) = cont_count_found (parse_inputs K ops (Some s) d) \<and>
    scan_time_found (parse_inputs K ops None d) = scan_time_found (parse_inputs K ops (Some s) d) \<and>
    cont (parse_inputs K ops None d) = cont (parse_inputs K ops (Some s) d) \<and>
    (\<forall>i < WMT_N_USAGES. usage_first K i \<longrightarrow>
       USAGE_SUPPORTED (caps (parse_inputs K ops None d)) i =
       USAGE_SUPPORTED (caps (parse_inputs K ops (Some s) d)) i) \<and>
    ((\<forall>h \<in> set (d hid_input). kind h = hid_input \<longrightarrow> loc_size (loc h) \<noteq> 0) \<longrightarrow>
       caps (parse_inputs K ops None d) = caps (parse_inputs K ops (Some s) d))"
proof -
  let ?p = "parse_inputs K ops None d" and ?a = "parse_inputs K ops (Some s) d"
  from parse_inputs_probe_sim [OF zero] have sim: "probe_sim K ?p ?a" .
  then have c: "ctrl ?p = ctrl ?a" by (simp add: probe_sim_def)
  note f = ctrl_fields [OF c]
  have first: "\<forall>i < WMT_N_USAGES. usage_first K i \<longrightarrow>
       USAGE_SUPPORTED (caps ?p) i = USAGE_SUPPORTED (caps ?a) i"
    using sim by (simp add: probe_sim_def)
  have bits: "\<forall>i < WMT_N_USAGES. mi_required (wmt_hid_map K ! i) \<longrightarrow>
       USAGE_SUPPORTED (caps ?p) i = USAGE_SUPPORTED (caps ?a) i"
    using first tbl by simp
  have rm: "required_missing K (caps ?p) = required_missing K (caps ?a)"
    using bits by (rule required_missing_cong)
  have "cont_max_rid (parse_features K None d) = cont_max_rid (parse_features K (Some s) d)"
    by (simp add: parse_features_strip [of K d s])
  then have rej: "wmt_rejected K ops None d = wmt_rejected K ops (Some s) d"
    using f rm by (simp add: wmt_rejected_def)
  have ret: "fst (wmt_hid_parse K ops None d) = fst (wmt_hid_parse K ops (Some s) d)"
    using rej f(2) by (simp add: fst_wmt_hid_parse)
  have full: "caps ?p = caps ?a"
    if "\<forall>h \<in> set (d hid_input). kind h = hid_input \<longrightarrow> loc_size (loc h) \<noteq> 0"
    using zero that by (rule parse_inputs_probe_eq)
  note val = fst_wmt_hid_parse [of K ops None d]
  from ret val rej f(2,6,7,1) first full show ?thesis by blast
qed

theorem wmt_hid_parse_probe_attach_witness:
  "loc_size (sc_locs zero_softc 0 WMT_X) = 0 \<and>
   usage_first freebsd_consts WMT_X \<and>
   fst (wmt_hid_parse freebsd_consts example_ops None touchscreen_desc) = 4 \<and>
   fst (wmt_hid_parse freebsd_consts example_ops (Some zero_softc) touchscreen_desc) = 4 \<and>
   USAGE_SUPPORTED (caps (parse_inputs freebsd_consts example_ops (Some zero_softc) touchscreen_desc)) WMT_X \<and>
   caps (parse_inputs freebsd_consts example_ops None touchscreen_desc) = 0x71 \<and>
   caps (parse_inputs freebsd_consts example_ops (Some zero_softc) touchscreen_desc) = 0x71"
proof -
  have z: "\<forall>u < WMT_N_USAGES. loc_size (sc_locs zero_softc 0 u) = 0"
    by (simp add: zero_softc_def zero_loc_def)
  have "\<forall>i \<in> set [0 ..< WMT_N_USAGES]. mi_required (wmt_hid_map freebsd_consts ! i) \<longrightarrow>
      (\<forall>j \<in> set [0 ..< i]. mi_usage (wmt_hid_map freebsd_consts ! j) \<noteq>
         mi_usage (wmt_hid_map freebsd_consts ! i))"
    by code_simp
  then have t: "\<forall>i < WMT_N_USAGES. mi_required (wmt_hid_map freebsd_consts ! i) \<longrightarrow>
      usage_first freebsd_consts i"
    by (simp add: usage_first_def del: upt_rec_numeral)
  have "\<forall>j \<in> set [0 ..< WMT_X]. mi_usage (wmt_hid_map freebsd_consts ! j) \<noteq>
         mi_usage (wmt_hid_map freebsd_consts ! WMT_X)"
    by code_simp
  then have u: "usage_first freebsd_consts WMT_X"
    by (simp add: usage_first_def del: upt_rec_numeral)
  have w: "\<forall>h \<in> set (touchscreen_desc hid_input). kind h = hid_input \<longrightarrow> loc_size (loc h) \<noteq> 0"
    by code_simp
  have p: "fst (wmt_hid_parse freebsd_consts example_ops None touchscreen_desc) = 4" by code_simp
  have cp: "caps (parse_inputs freebsd_consts example_ops None touchscreen_desc) = 0x71" by code_simp
  have x: "USAGE_SUPPORTED (0x71 :: u32) WMT_X" by code_simp
  have z4: "loc_size (sc_locs zero_softc 0 WMT_X) = 0" by (simp add: zero_softc_def zero_loc_def)
  from wmt_hid_parse_probe_attach [OF z t, of example_ops touchscreen_desc] w
  have "fst (wmt_hid_parse freebsd_consts example_ops None touchscreen_desc) =
          fst (wmt_hid_parse freebsd_consts example_ops (Some zero_softc) touchscreen_desc)"
    and "caps (parse_inputs freebsd_consts example_ops None touchscreen_desc) =
          caps (parse_inputs freebsd_consts example_ops (Some zero_softc) touchscreen_desc)"
    by blast+
  with p cp x u z4 show ?thesis by (simp only: simp_thms)
qed

end
